theory Spec2Isabelle
  imports Complex_Main "HOL-Library.Word"
begin

section \<open>JavaScript values\<close>

text \<open>
  A JavaScript string is a sequence of UTF-16 code units; \<open>length\<close> is the source's
  \<open>.length\<close>.  \<open>ascii\<close> writes a literal of the source.
\<close>

type_synonym jschar = "16 word"
type_synonym jsstring = "jschar list"

definition ascii :: "string \<Rightarrow> jsstring" where
  "ascii s = map (\<lambda>c. of_nat (of_char c)) s"

text \<open>
  An array slot that holds a string or \<open>undefined\<close> (a hole of a sparse array reads as
  \<open>undefined\<close> too).  \<open>String(v)\<close> turns \<open>undefined\<close> into the text \<open>undefined\<close>.
\<close>

type_synonym jsval = "jsstring option"

definition String_of :: "jsval \<Rightarrow> jsstring" where
  "String_of v = (case v of None \<Rightarrow> ascii ''undefined'' | Some s \<Rightarrow> s)"

text \<open>\<open>xs[i]\<close> for a non-negative index: \<open>undefined\<close> (\<open>None\<close>) out of range.\<close>

definition nth_opt :: "'a list \<Rightarrow> nat \<Rightarrow> 'a option" where
  "nth_opt xs i = (if i < length xs then Some (xs ! i) else None)"

text \<open>\<open>xs[i]\<close> for any integer index: a negative index is no element of an array.\<close>

definition index_opt :: "'a list \<Rightarrow> int \<Rightarrow> 'a option" where
  "index_opt xs i = (if i < 0 then None else nth_opt xs (nat i))"

text \<open>\<open>values[i]\<close> of an array of strings with holes.\<close>

definition array_get :: "jsval list \<Rightarrow> nat \<Rightarrow> jsval" where
  "array_get vs i = (if i < length vs then vs ! i else None)"

text \<open>
  \<open>values[i] = v\<close>: JavaScript extends the array when \<open>i\<close> is past its end, the
  slots in between reading as \<open>undefined\<close>.
\<close>

definition array_set :: "jsval list \<Rightarrow> nat \<Rightarrow> jsval \<Rightarrow> jsval list" where
  "array_set vs i v =
     (if i < length vs then vs[i := v]
      else vs @ replicate (i - length vs) None @ [v])"

subsection \<open>String.prototype.indexOf\<close>

text \<open>
  \<open>s.indexOf(v, from)\<close>: the least position \<open>k\<close> with \<open>min from (length s) \<le> k\<close> at
  which \<open>v\<close> occurs in \<open>s\<close>; \<open>None\<close> stands for the source's \<open>-1\<close>.
\<close>

fun find_from :: "'a list \<Rightarrow> 'a list \<Rightarrow> nat \<Rightarrow> nat option" where
  "find_from v [] k = (if v = [] then Some k else None)"
| "find_from v (c # s) k =
     (if take (length v) (c # s) = v then Some k else find_from v s (Suc k))"

definition indexOf :: "'a list \<Rightarrow> 'a list \<Rightarrow> nat \<Rightarrow> nat option" where
  "indexOf s v from = (let p = min from (length s) in find_from v (drop p s) p)"

section \<open>Range resolution: getSegmentRanges\<close>

text \<open>
  \<open>getSegmentRanges(value, parse, format)\<close>, src/segmented-input.js, lines 24-46.  A
  range holds the offsets \<open>start\<close> and \<open>end\<close> and the segment's text \<open>value\<close>.
\<close>

record range =
  r_start :: int
  r_end :: int
  r_value :: jsstring

text \<open>
  The loop of \<open>getSegmentRanges\<close> over the segment values, \<open>searchFrom\<close> being the
  advancing search position.
\<close>

fun scanRanges :: "jsstring \<Rightarrow> nat \<Rightarrow> jsval list \<Rightarrow> range list" where
  "scanRanges formatted searchFrom [] = []"
| "scanRanges formatted searchFrom (v # vs) =
     (let segVal = String_of v in
      case indexOf formatted segVal searchFrom of
        None \<Rightarrow>
          \<lparr>r_start = int searchFrom, r_end = int searchFrom, r_value = segVal\<rparr>
            # scanRanges formatted searchFrom vs
      | Some start \<Rightarrow>
          (let end' = start + length segVal in
           \<lparr>r_start = int start, r_end = int end', r_value = segVal\<rparr>
             # scanRanges formatted end' vs))"

definition getSegmentRanges ::
  "jsstring \<Rightarrow> (jsstring \<Rightarrow> jsval list) \<Rightarrow> (jsval list \<Rightarrow> jsstring) \<Rightarrow> range list" where
  "getSegmentRanges text parse format =
     (let segmentValues = parse text;
          formatted = format segmentValues
      in scanRanges formatted 0 segmentValues)"

section \<open>Cursor mapping: getCursorSegment\<close>

text \<open>\<open>getCursorSegment(cursorPos, segmentRanges)\<close>, src/segmented-input.js, lines 57-85.\<close>

text \<open>The first loop: the first range that contains the cursor, both ends included.\<close>

fun exactHit :: "int \<Rightarrow> range list \<Rightarrow> nat \<Rightarrow> nat option" where
  "exactHit cursorPos [] i = None"
| "exactHit cursorPos (r # rs) i =
     (if cursorPos \<ge> r_start r \<and> cursorPos \<le> r_end r then Some i
      else exactHit cursorPos rs (Suc i))"

text \<open>The second loop: the first gap the cursor is strictly inside, and its nearer side.\<close>

fun nearestSide :: "int \<Rightarrow> range list \<Rightarrow> nat \<Rightarrow> nat option" where
  "nearestSide cursorPos (a # b # rs) i =
     (if cursorPos > r_end a \<and> cursorPos < r_start b
      then (let distLeft = cursorPos - r_end a;
                distRight = r_start b - cursorPos
            in Some (if distLeft \<le> distRight then i else i + 1))
      else nearestSide cursorPos (b # rs) (Suc i))"
| "nearestSide cursorPos rs i = None"

definition getCursorSegment :: "int \<Rightarrow> range list \<Rightarrow> nat" where
  "getCursorSegment cursorPos segmentRanges =
     (if segmentRanges = [] then 0
      else case exactHit cursorPos segmentRanges 0 of
        Some i \<Rightarrow> i
      | None \<Rightarrow>
          if cursorPos < r_start (hd segmentRanges) then 0
          else if cursorPos > r_end (last segmentRanges) then length segmentRanges - 1
          else (case nearestSide cursorPos segmentRanges 0 of
                  Some i \<Rightarrow> i
                | None \<Rightarrow> 0))"

section \<open>Numbers and the engine's built-ins\<close>

text \<open>
  A JavaScript number is a double: \<open>NaN\<close>, one of the two infinities, or a finite
  double, which \<open>Finite\<close> gives by its exact value (every finite double is a
  rational; \<open>0.1\<close> of a source text is the double nearest to \<open>1/10\<close>, not \<open>1/10\<close>).
  The two zeros are one value: they compare equal and are printed alike.
\<close>

datatype jsnum = NaN | Infinity | NegInfinity | Finite rat

text \<open>\<open>x > y\<close> on numbers: false when either side is \<open>NaN\<close>.\<close>

definition exceeds :: "jsnum \<Rightarrow> jsnum \<Rightarrow> bool" where
  "exceeds x y =
     (case x of
        NaN \<Rightarrow> False
      | NegInfinity \<Rightarrow> False
      | Infinity \<Rightarrow> (case y of Finite b \<Rightarrow> True | NegInfinity \<Rightarrow> True | _ \<Rightarrow> False)
      | Finite a \<Rightarrow> (case y of Finite b \<Rightarrow> a > b | NegInfinity \<Rightarrow> True | _ \<Rightarrow> False))"

text \<open>\<open>Math.floor(x)\<close>: the floor of a finite double is a double again.\<close>

definition Math_floor :: "jsnum \<Rightarrow> jsnum" where
  "Math_floor x = (case x of Finite a \<Rightarrow> Finite (of_int \<lfloor>a\<rfloor>) | _ \<Rightarrow> x)"

datatype error = RangeError

text \<open>
  The built-ins of the JavaScript engine that print, read and multiply doubles are
  parameters of the model, so that every statement below holds of whatever the
  engine computes (the shortest digits and the exponent notation of \<open>String\<close>, the
  rounding of \<open>toFixed\<close>, \<open>parseInt\<close> and \<open>*\<close> to the nearest double):
  \<^item> \<open>numberToString x\<close> is \<open>String(x)\<close>;
  \<^item> \<open>numberToFixed x d\<close> is \<open>x.toFixed(d)\<close>, which may raise a \<open>RangeError\<close>;
  \<^item> \<open>numberToRadix x radix\<close> is \<open>x.toString(radix)\<close>, which may raise a
    \<open>RangeError\<close>;
  \<^item> \<open>parseInt string radix\<close> is \<open>parseInt(string, radix)\<close>;
  \<^item> \<open>multiply x y\<close> is \<open>x * y\<close>.
\<close>

record engine =
  numberToString :: "jsnum \<Rightarrow> jsstring"
  numberToFixed :: "jsnum \<Rightarrow> nat \<Rightarrow> error + jsstring"
  numberToRadix :: "jsnum \<Rightarrow> nat \<Rightarrow> error + jsstring"
  parseInt :: "jsstring \<Rightarrow> nat \<Rightarrow> jsnum"
  multiply :: "jsnum \<Rightarrow> jsnum \<Rightarrow> jsnum"

text \<open>\<open>s.split(c)\<close> for a one-character separator.\<close>

fun split_on :: "'a \<Rightarrow> 'a list \<Rightarrow> 'a list list" where
  "split_on c [] = [[]]"
| "split_on c (x # xs) =
     (if x = c then [] # split_on c xs
      else (case split_on c xs of
              [] \<Rightarrow> [[x]]
            | p # ps \<Rightarrow> (x # p) # ps))"

text \<open>\<open>(t.split('.')[1] || '').length\<close> for a text \<open>t\<close>.\<close>

definition decimalsOf :: "jsstring \<Rightarrow> nat" where
  "decimalsOf t =
     length (case nth_opt (split_on (of_nat 46) t) 1 of
               None \<Rightarrow> []
             | Some p \<Rightarrow> p)"

section \<open>Segment descriptors, configuration and controller state\<close>

text \<open>
  A segment descriptor with its optional fields (\<open>None\<close> is an absent field).
  \<open>onClick\<close> says whether the descriptor carries an \<open>onClick\<close> function, and
  \<open>pattern\<close> is the test of the descriptor's regular expression on a typed key.
\<close>

record segment =
  seg_value :: "jsstring option"
  placeholder :: "jsstring option"
  seg_type :: "jsstring option"
  options :: "jsstring list option"
  onClick :: bool
  selectable :: bool
  seg_min :: "jsnum option"
  seg_max :: "jsnum option"
  step :: "jsnum option"
  radix :: "nat option"
  pattern :: "(jsstring \<Rightarrow> bool) option"
  maxLength :: "int option"

text \<open>
  The options of the constructor, and the engine that the controller runs on.
  \<open>numericStep\<close> stands for the floating-point arithmetic of \<open>_adjustSegment\<close>
  (parse the slot as a number, add the step, clamp to \<open>min\<close> and \<open>max\<close>, print):
  it maps the descriptor, the slot's value and the direction to the slot's new text
  and is left abstract.
\<close>

record config =
  segments :: "segment list"
  format :: "jsval list \<Rightarrow> jsstring"
  parse :: "jsstring \<Rightarrow> jsval list"
  invalidMessage :: jsstring
  numericStep :: "segment \<Rightarrow> jsval \<Rightarrow> int \<Rightarrow> jsstring"
  runtime :: engine

text \<open>
  The events sent out: \<open>input\<close> and \<open>change\<close> on the input element, and the
  controller's own \<open>segmentblur\<close>, \<open>segmentfocus\<close> and \<open>segmentchange\<close>.
\<close>

datatype event =
  InputEvent
| ChangeEvent
| SegmentBlur nat
| SegmentFocus nat
| SegmentChange nat jsval

text \<open>
  The mutable state: the input element's value, custom validity message, selection and
  action class, the controller's active segment and typed-character buffer, and the log
  of the events sent.
\<close>

record state =
  input_value :: jsstring
  activeSegment :: nat
  segmentBuffer :: jsstring
  customValidity :: jsstring
  selection :: "(int \<times> int) option"
  actionClass :: bool
  dispatched :: "event list"

record keyboardEvent =
  key :: jsstring
  ctrlKey :: bool
  metaKey :: bool
  shiftKey :: bool

datatype direction = Forward | Backward

text \<open>The source's \<open>+1\<close> and \<open>-1\<close>.\<close>

definition dir_int :: "direction \<Rightarrow> int" where
  "dir_int d = (case d of Forward \<Rightarrow> 1 | Backward \<Rightarrow> - 1)"

text \<open>
  \<open>segments.map(s => s.placeholder ?? String(s.value ?? s.min ?? 0))\<close>, the
  \<open>value\<close> of a descriptor being a string.
\<close>

definition placeholderValues :: "config \<Rightarrow> jsstring list" where
  "placeholderValues cfg =
     map (\<lambda>s. case placeholder s of
                 Some p \<Rightarrow> p
               | None \<Rightarrow>
                   (case seg_value s of
                      Some v \<Rightarrow> v
                    | None \<Rightarrow>
                        numberToString (runtime cfg)
                          (case seg_min s of Some m \<Rightarrow> m | None \<Rightarrow> Finite 0)))
         (segments cfg)"

definition dispatch :: "event \<Rightarrow> state \<Rightarrow> state" where
  "dispatch e s = s\<lparr>dispatched := dispatched s @ [e]\<rparr>"

text \<open>
  \<open>#emit\<close> of the second class sends one of the controller's own events; both kinds
  of events go to the same log.
\<close>

definition emit :: "event \<Rightarrow> state \<Rightarrow> state" where
  "emit e s = s\<lparr>dispatched := dispatched s @ [e]\<rparr>"

text \<open>
  \<open>highlightSegment(input, segmentIndex, segmentRanges)\<close> (lines 94-99): the selection
  is set only when the range exists.
\<close>

definition highlightSegment :: "state \<Rightarrow> nat \<Rightarrow> range list \<Rightarrow> state" where
  "highlightSegment s segmentIndex segmentRanges =
     (case nth_opt segmentRanges segmentIndex of
        None \<Rightarrow> s
      | Some seg \<Rightarrow> s\<lparr>selection := Some (r_start seg, r_end seg)\<rparr>)"

section \<open>The controller of src/segmented-input.js\<close>

text \<open>
  The methods of the class \<open>SegmentedInput\<close> (lines 121-562), each a function from the
  state before the call to the state after it: \<open>focusSegment\<close> (207-212),
  \<open>getSegmentValue\<close> (219-221), \<open>_adjustSegment\<close> (269-308) with \<open>increment\<close> and
  \<open>decrement\<close>, \<open>_onBlurOut\<close> (336-348), \<open>_onKeydown\<close> (361-426),
  \<open>_handleSegmentInput\<close> (435-475), \<open>_shouldAutoAdvance\<close> (487-508),
  \<open>_updateValidity\<close> (518-526), \<open>_isPlaceholderState\<close> (534-538),
  \<open>_isDecimalSegment\<close> (545-547) and \<open>_advanceSegment\<close> (553-561).  The leading
  underscore of a private method is dropped.  The two methods that are given a
  descriptor and not the controller's state, \<open>_isDecimalSegment\<close> and
  \<open>_shouldAutoAdvance\<close>, take the engine as their first argument.
\<close>

definition formattedPlaceholder :: "config \<Rightarrow> jsstring" where
  "formattedPlaceholder cfg = format cfg (map Some (placeholderValues cfg))"

text \<open>The method \<open>getSegmentRanges()\<close>.\<close>

definition currentRanges :: "config \<Rightarrow> state \<Rightarrow> range list" where
  "currentRanges cfg s = getSegmentRanges (input_value s) (parse cfg) (format cfg)"

definition focusSegment :: "config \<Rightarrow> int \<Rightarrow> state \<Rightarrow> state" where
  "focusSegment cfg index s =
     (let clamped = max 0 (min index (int (length (segments cfg)) - 1));
          s1 = s\<lparr>activeSegment := nat clamped, segmentBuffer := []\<rparr>
      in highlightSegment s1 (nat clamped) (currentRanges cfg s1))"

definition getSegmentValue :: "config \<Rightarrow> int \<Rightarrow> state \<Rightarrow> jsval" where
  "getSegmentValue cfg index s =
     (case index_opt (parse cfg (input_value s)) index of
        None \<Rightarrow> None
      | Some v \<Rightarrow> v)"

definition updateValidity :: "config \<Rightarrow> state \<Rightarrow> state" where
  "updateValidity cfg s =
     (if input_value s = [] then s\<lparr>customValidity := []\<rparr>
      else
        let values = parse cfg (input_value s);
            hasPlaceholder =
              list_ex (\<lambda>i. array_get values i = Some (placeholderValues cfg ! i))
                [0..<length (placeholderValues cfg)]
        in s\<lparr>customValidity := (if hasPlaceholder then invalidMessage cfg else [])\<rparr>)"

definition isPlaceholderState :: "config \<Rightarrow> state \<Rightarrow> bool" where
  "isPlaceholderState cfg s =
     (if input_value s = [] then True
      else
        let values = parse cfg (input_value s)
        in list_all (\<lambda>i. array_get values i = Some (placeholderValues cfg ! i))
             [0..<length (placeholderValues cfg)])"

text \<open>
  \<open>String(seg.step ?? 1).includes('.')\<close>, on the engine \<open>rt\<close>: the text of the step
  holds a decimal point.
\<close>

definition isDecimalSegment :: "engine \<Rightarrow> segment \<Rightarrow> bool" where
  "isDecimalSegment rt seg =
     (of_nat 46 \<in> set (numberToString rt (case step seg of None \<Rightarrow> Finite 1 | Some st \<Rightarrow> st)))"

text \<open>\<open>String(seg.step)\<close>: the text \<open>undefined\<close> when the descriptor has no step.\<close>

definition stepText :: "engine \<Rightarrow> segment \<Rightarrow> jsstring" where
  "stepText rt seg =
     (case step seg of None \<Rightarrow> ascii ''undefined'' | Some st \<Rightarrow> numberToString rt st)"

definition advanceSegment :: "config \<Rightarrow> state \<Rightarrow> state" where
  "advanceSegment cfg s =
     (if int (activeSegment s) < int (length (segments cfg)) - 1
      then focusSegment cfg (int (activeSegment s) + 1) s
      else
        let s1 = s\<lparr>segmentBuffer := []\<rparr>
        in highlightSegment s1 (activeSegment s1) (currentRanges cfg s1))"

text \<open>
  \<open>_shouldAutoAdvance(seg, buffer, radix)\<close> on the engine \<open>rt\<close>.  An error of
  \<open>toFixed\<close> or \<open>toString\<close> leaves the method as it is raised.
\<close>

definition shouldAutoAdvance :: "engine \<Rightarrow> segment \<Rightarrow> jsstring \<Rightarrow> nat \<Rightarrow> error + bool" where
  "shouldAutoAdvance rt seg buffer rdx =
     (case maxLength seg of
        Some ml \<Rightarrow> Inr (int (length buffer) \<ge> ml)
      | None \<Rightarrow>
          (case seg_max seg of
             None \<Rightarrow> Inr False
           | Some mx \<Rightarrow>
               if isDecimalSegment rt seg then
                 (let decimals = decimalsOf (stepText rt seg)
                  in case numberToFixed rt mx decimals of
                       Inl e \<Rightarrow> Inl e
                     | Inr maxText \<Rightarrow> Inr (length buffer \<ge> length maxText))
               else
                 (case numberToRadix rt (Math_floor mx) rdx of
                    Inl e \<Rightarrow> Inl e
                  | Inr maxText \<Rightarrow>
                      if length buffer \<ge> length maxText then Inr True
                      else
                        let val = parseInt rt buffer rdx
                        in Inr (exceeds (multiply rt val (Finite (of_nat rdx))) mx))))"

text \<open>\<open>seg.radix ?? 10\<close>\<close>

definition radixOf :: "segment \<Rightarrow> nat" where
  "radixOf seg = (case radix seg of None \<Rightarrow> 10 | Some r \<Rightarrow> r)"

text \<open>\<open>if (!this.input.value) this.input.value = this._formattedPlaceholder\<close>\<close>

definition showPlaceholder :: "config \<Rightarrow> state \<Rightarrow> state" where
  "showPlaceholder cfg s =
     (if input_value s = [] then s\<lparr>input_value := formattedPlaceholder cfg\<rparr> else s)"

definition adjustSegment :: "config \<Rightarrow> nat \<Rightarrow> direction \<Rightarrow> state \<Rightarrow> state" where
  "adjustSegment cfg index d s =
     (case nth_opt (segments cfg) index of
        None \<Rightarrow> s
      | Some seg \<Rightarrow>
          let s1 = showPlaceholder cfg s;
              values = parse cfg (input_value s1);
              values' = array_set values index
                          (Some (numericStep cfg seg (array_get values index) (dir_int d)));
              s2 = s1\<lparr>input_value := format cfg values'\<rparr>;
              s3 = focusSegment cfg (int index) s2;
              s4 = dispatch InputEvent s3;
              s5 = dispatch ChangeEvent s4
          in updateValidity cfg s5)"

definition increment :: "config \<Rightarrow> state \<Rightarrow> state" where
  "increment cfg s = adjustSegment cfg (activeSegment s) Forward s"

definition decrement :: "config \<Rightarrow> state \<Rightarrow> state" where
  "decrement cfg s = adjustSegment cfg (activeSegment s) Backward s"

definition onBlurOut :: "config \<Rightarrow> state \<Rightarrow> state" where
  "onBlurOut cfg s =
     (let s1 = (if isPlaceholderState cfg s
                then s\<lparr>input_value := [], activeSegment := 0, segmentBuffer := []\<rparr>
                else s)
      in updateValidity cfg s1)"

definition handleSegmentInput :: "config \<Rightarrow> jsstring \<Rightarrow> state \<Rightarrow> error + state" where
  "handleSegmentInput cfg k s =
     (case nth_opt (segments cfg) (activeSegment s) of
        None \<Rightarrow> Inr s
      | Some seg \<Rightarrow>
          let s1 = showPlaceholder cfg s in
          if (case pattern seg of None \<Rightarrow> False | Some test \<Rightarrow> \<not> test k) then Inr s1
          else
            let rdx = radixOf seg;
                newBuffer = segmentBuffer s1 @ k
            in
              if (case seg_max seg of
                    None \<Rightarrow> False
                  | Some mx \<Rightarrow>
                      \<not> isDecimalSegment (runtime cfg) seg \<and>
                      (let numVal = parseInt (runtime cfg) newBuffer rdx
                       in exceeds numVal mx))
              then Inr (advanceSegment cfg s1)
              else
                let s2 = s1\<lparr>segmentBuffer := newBuffer\<rparr>;
                    values = array_set (parse cfg (input_value s2)) (activeSegment s2)
                               (Some (segmentBuffer s2));
                    s3 = s2\<lparr>input_value := format cfg values\<rparr>;
                    s4 = dispatch InputEvent s3;
                    s5 = updateValidity cfg s4;
                    s6 = highlightSegment s5 (activeSegment s5) (currentRanges cfg s5)
                in (case shouldAutoAdvance (runtime cfg) seg (segmentBuffer s6) rdx of
                      Inl e \<Rightarrow> Inl e
                    | Inr advance \<Rightarrow> Inr (if advance then advanceSegment cfg s6 else s6)))"

text \<open>
  \<open>_onKeydown\<close>: the new state, and whether \<open>preventDefault\<close> was called on the
  event.
\<close>

definition onKeydown :: "config \<Rightarrow> keyboardEvent \<Rightarrow> state \<Rightarrow> error + state \<times> bool" where
  "onKeydown cfg ev s =
     (if length (key ev) = 1 \<and> \<not> ctrlKey ev \<and> \<not> metaKey ev then
        (case handleSegmentInput cfg (key ev) s of
           Inl e \<Rightarrow> Inl e
         | Inr s' \<Rightarrow> Inr (s', True))
      else if key ev = ascii ''Backspace'' then
        (let ph = nth_opt (placeholderValues cfg) (activeSegment s);
             s1 = s\<lparr>segmentBuffer := []\<rparr>;
             values = array_set (parse cfg (input_value s1)) (activeSegment s1) ph;
             s2 = s1\<lparr>input_value := format cfg values\<rparr>;
             s3 = dispatch InputEvent s2;
             s4 = updateValidity cfg s3
         in Inr (highlightSegment s4 (activeSegment s4) (currentRanges cfg s4), True))
      else if key ev = ascii ''ArrowLeft'' then
        Inr (focusSegment cfg (int (activeSegment s) - 1) s, True)
      else if key ev = ascii ''ArrowRight'' then
        Inr (focusSegment cfg (int (activeSegment s) + 1) s, True)
      else if key ev = ascii ''ArrowUp'' then Inr (increment cfg s, True)
      else if key ev = ascii ''ArrowDown'' then Inr (decrement cfg s, True)
      else if key ev = ascii ''Tab'' then
        (if shiftKey ev then
           (if activeSegment s > 0
            then Inr (focusSegment cfg (int (activeSegment s) - 1) s, True)
            else Inr (s, False))
         else
           (if int (activeSegment s) < int (length (segments cfg)) - 1
            then Inr (focusSegment cfg (int (activeSegment s) + 1) s, True)
            else Inr (s, False)))
      else Inr (s, False))"

section \<open>The controller with action segments and options\<close>

text \<open>
  The second \<open>SegmentedInput\<close> class of the repository (the one that extends
  \<open>EventTarget\<close> and keeps its state in private fields) adds action segments, the
  zero-width-space guards around them and enumerated segments.  Its methods carry the
  suffix \<open>2\<close> where the name is already taken by the class above, and the \<open>#\<close> of a
  private method is dropped: \<open>focusSegment\<close>, \<open>#adjustSegment\<close>, \<open>#onBlurOut\<close>,
  \<open>#updateValidity\<close>, \<open>#isPlaceholderState\<close>, \<open>#isActionSegment\<close>, \<open>#stripZWS\<close>,
  \<open>#formatGuarded\<close>, \<open>#currentValues\<close> and \<open>#findEditable\<close>.
\<close>

definition isActionSegment :: "segment option \<Rightarrow> bool" where
  "isActionSegment seg =
     (case seg of
        None \<Rightarrow> False
      | Some sg \<Rightarrow> seg_type sg = Some (ascii ''action'') \<or> onClick sg)"

definition ZWS :: jschar where
  "ZWS = 0x200B"

definition stripZWS :: "jsstring \<Rightarrow> jsstring" where
  "stripZWS str = filter (\<lambda>c. c \<noteq> ZWS) str"

text \<open>
  The first loop of \<open>#formatGuarded\<close>: the ranges of the action segments' values in
  the raw text, by the same left-to-right search as \<open>getSegmentRanges\<close>.
\<close>

fun actionScan :: "config \<Rightarrow> jsstring \<Rightarrow> nat \<Rightarrow> nat \<Rightarrow> jsval list \<Rightarrow> (nat \<times> nat) list" where
  "actionScan cfg raw searchFrom i [] = []"
| "actionScan cfg raw searchFrom i (v # vs) =
     (let segVal = String_of v in
      case indexOf raw segVal searchFrom of
        None \<Rightarrow> actionScan cfg raw searchFrom (Suc i) vs
      | Some start \<Rightarrow>
          (if isActionSegment (nth_opt (segments cfg) i)
           then [(start, start + length segVal)] else [])
          @ actionScan cfg raw (start + length segVal) (Suc i) vs)"

definition formatGuarded :: "config \<Rightarrow> jsval list \<Rightarrow> jsstring" where
  "formatGuarded cfg values =
     (let raw = format cfg values in
      if \<not> list_ex (\<lambda>sg. isActionSegment (Some sg)) (segments cfg) then raw
      else
        fold (\<lambda>(start, end') result.
                take start result @ [ZWS] @ take (end' - start) (drop start result)
                  @ [ZWS] @ drop end' result)
             (rev (actionScan cfg raw 0 0 values)) raw)"

definition currentValues :: "config \<Rightarrow> state \<Rightarrow> jsval list" where
  "currentValues cfg s = parse cfg (stripZWS (input_value s))"

definition formattedPlaceholder2 :: "config \<Rightarrow> jsstring" where
  "formattedPlaceholder2 cfg = formatGuarded cfg (map Some (placeholderValues cfg))"

definition showPlaceholder2 :: "config \<Rightarrow> state \<Rightarrow> state" where
  "showPlaceholder2 cfg s =
     (if input_value s = [] then s\<lparr>input_value := formattedPlaceholder2 cfg\<rparr> else s)"

definition currentRanges2 :: "config \<Rightarrow> state \<Rightarrow> range list" where
  "currentRanges2 cfg s =
     getSegmentRanges (input_value s) (\<lambda>v. parse cfg (stripZWS v)) (formatGuarded cfg)"

text \<open>
  \<open>#findEditable(fromIndex, direction)\<close>: the first segment that is no action segment,
  from \<open>fromIndex\<close> on in the direction \<open>+1\<close> or \<open>-1\<close>; \<open>None\<close> is the source's
  \<open>null\<close>.
\<close>

function findEditable :: "config \<Rightarrow> int \<Rightarrow> direction \<Rightarrow> nat option" where
  "findEditable cfg i d =
     (if i \<ge> 0 \<and> i < int (length (segments cfg)) then
        (if \<not> isActionSegment (nth_opt (segments cfg) (nat i)) then Some (nat i)
         else findEditable cfg (i + dir_int d) d)
      else None)"
  by pat_completeness auto
termination
  by (relation "measure (\<lambda>(cfg, i, d).
        case d of Forward \<Rightarrow> nat (int (length (segments cfg)) - i)
                | Backward \<Rightarrow> nat (i + 1))")
     (auto simp: dir_int_def split: direction.splits)

declare findEditable.simps [simp del]

definition optSelectable :: "segment option \<Rightarrow> bool" where
  "optSelectable seg = (case seg of None \<Rightarrow> False | Some sg \<Rightarrow> selectable sg)"

definition focusSegment2 :: "config \<Rightarrow> int \<Rightarrow> state \<Rightarrow> state" where
  "focusSegment2 cfg index s =
     (let clamped0 = max 0 (min index (int (length (segments cfg)) - 1));
          seg = nth_opt (segments cfg) (nat clamped0);
          target =
            (if isActionSegment seg \<and> \<not> optSelectable seg then
               (case findEditable cfg (clamped0 + 1) Forward of
                  Some fwd \<Rightarrow> Some fwd
                | None \<Rightarrow> findEditable cfg (clamped0 - 1) Backward)
             else Some (nat clamped0))
      in case target of
           None \<Rightarrow> s
         | Some clamped \<Rightarrow>
             let s1 = (if clamped \<noteq> activeSegment s
                       then emit (SegmentBlur (activeSegment s)) s else s);
                 s2 = s1\<lparr>activeSegment := clamped, segmentBuffer := []\<rparr>;
                 targetSeg = nth_opt (segments cfg) clamped;
                 s3 = s2\<lparr>actionClass := (isActionSegment targetSeg \<and> optSelectable targetSeg)\<rparr>;
                 s4 = highlightSegment s3 clamped (currentRanges2 cfg s3)
             in emit (SegmentFocus clamped) s4)"

definition updateValidity2 :: "config \<Rightarrow> state \<Rightarrow> state" where
  "updateValidity2 cfg s =
     (if input_value s = [] then s\<lparr>customValidity := []\<rparr>
      else
        let values = currentValues cfg s;
            hasPlaceholder =
              list_ex (\<lambda>i. \<not> isActionSegment (nth_opt (segments cfg) i) \<and>
                            array_get values i = Some (placeholderValues cfg ! i))
                [0..<length (placeholderValues cfg)]
        in s\<lparr>customValidity := (if hasPlaceholder then invalidMessage cfg else [])\<rparr>)"

definition isPlaceholderState2 :: "config \<Rightarrow> state \<Rightarrow> bool" where
  "isPlaceholderState2 cfg s =
     (if input_value s = [] then True
      else
        let values = currentValues cfg s
        in list_all (\<lambda>i. if isActionSegment (nth_opt (segments cfg) i) then True
                          else array_get values i = Some (placeholderValues cfg ! i))
             [0..<length (placeholderValues cfg)])"

definition onBlurOut2 :: "config \<Rightarrow> state \<Rightarrow> state" where
  "onBlurOut2 cfg s =
     (let s1 = s\<lparr>actionClass := False\<rparr>;
          s2 = (if length (segments cfg) > 0
                then emit (SegmentBlur (activeSegment s1)) s1 else s1);
          s3 = (if isPlaceholderState2 cfg s2
                then s2\<lparr>input_value := [], activeSegment := 0, segmentBuffer := []\<rparr>
                else s2)
      in updateValidity2 cfg s3)"

text \<open>\<open>array.indexOf(v)\<close>: the first position that holds \<open>v\<close>.\<close>

fun firstIndex :: "jsstring list \<Rightarrow> jsval \<Rightarrow> nat \<Rightarrow> nat option" where
  "firstIndex [] v i = None"
| "firstIndex (x # xs) v i = (if Some x = v then Some i else firstIndex xs v (Suc i))"

text \<open>
  \<open>#adjustSegment\<close>.  In the branch of an enumerated segment the new index is
  \<open>((idx === -1 ? 0 : idx) + direction + length) % length\<close>, whose left operand is never
  negative, so that JavaScript's remainder is \<open>mod\<close>; with an empty list the
  remainder is \<open>NaN\<close> and the option read is \<open>undefined\<close>.
\<close>

definition adjustSegment2 :: "config \<Rightarrow> nat \<Rightarrow> direction \<Rightarrow> state \<Rightarrow> state" where
  "adjustSegment2 cfg index d s =
     (case nth_opt (segments cfg) index of
        None \<Rightarrow> s
      | Some seg \<Rightarrow>
          if isActionSegment (Some seg) then s
          else if seg_type seg = Some (ascii ''text'') then s
          else
            let s1 = showPlaceholder2 cfg s;
                values = currentValues cfg s1;
                newValue =
                  (case options seg of
                     Some opts \<Rightarrow>
                       (let idx = firstIndex opts (array_get values index) 0;
                            newIdx = (int (case idx of None \<Rightarrow> 0 | Some j \<Rightarrow> j) + dir_int d
                                        + int (length opts)) mod int (length opts)
                        in if opts = [] then None else Some (opts ! nat newIdx))
                   | None \<Rightarrow>
                       Some (numericStep cfg seg (array_get values index) (dir_int d)));
                values' = array_set values index newValue;
                s2 = s1\<lparr>input_value := formatGuarded cfg values'\<rparr>;
                s3 = focusSegment2 cfg (int index) s2;
                s4 = dispatch InputEvent s3;
                s5 = dispatch ChangeEvent s4;
                s6 = updateValidity2 cfg s5
            in emit (SegmentChange index newValue) s6)"

definition increment2 :: "config \<Rightarrow> state \<Rightarrow> state" where
  "increment2 cfg s = adjustSegment2 cfg (activeSegment s) Forward s"

definition decrement2 :: "config \<Rightarrow> state \<Rightarrow> state" where
  "decrement2 cfg s = adjustSegment2 cfg (activeSegment s) Backward s"

section \<open>An engine on small integers\<close>

text \<open>
  What the built-ins return on the integers of magnitude below \<open>2^53\<close>, which
  doubles hold exactly: \<open>String(n)\<close>, \<open>n.toFixed(d)\<close> and \<open>n.toString(radix)\<close>
  write the digits of \<open>n\<close>, \<open>parseInt\<close> gives the integer that it reads, and a
  product is the integer product.  The examples below run on this engine, on such
  integers only; on any other number the instance says nothing about JavaScript and
  returns the empty text or \<open>NaN\<close>.
\<close>

definition digitChar :: "nat \<Rightarrow> jschar" where
  "digitChar d = (if d < 10 then of_nat (48 + d) else of_nat (87 + d))"

function natToString :: "nat \<Rightarrow> nat \<Rightarrow> jsstring" where
  "natToString rdx n =
     (if rdx < 2 \<or> n < rdx then [digitChar n]
      else natToString rdx (n div rdx) @ [digitChar (n mod rdx)])"
  by pat_completeness auto
termination
  by (relation "measure (\<lambda>(rdx, n). n)") auto

declare natToString.simps [simp del]

text \<open>The digits of an integer in a radix: lower-case, a leading \<open>-\<close> when negative.\<close>

definition intText :: "nat \<Rightarrow> int \<Rightarrow> jsstring" where
  "intText rdx n = (if n < 0 then ascii ''-'' else []) @ natToString rdx (nat \<bar>n\<bar>)"

text \<open>The integer that a number is, when it is one of magnitude below \<open>2^53\<close>.\<close>

definition smallInt :: "jsnum \<Rightarrow> int option" where
  "smallInt x =
     (case x of
        Finite a \<Rightarrow> if of_int \<lfloor>a\<rfloor> = a \<and> \<bar>a\<bar> < 2 ^ 53 then Some \<lfloor>a\<rfloor> else None
      | _ \<Rightarrow> None)"

definition isWhiteSpace :: "jschar \<Rightarrow> bool" where
  "isWhiteSpace c =
     (c \<in> set [0x9, 0xA, 0xB, 0xC, 0xD, 0x20, 0xA0, 0x1680, 0x2000, 0x2001, 0x2002,
               0x2003, 0x2004, 0x2005, 0x2006, 0x2007, 0x2008, 0x2009, 0x200A, 0x2028,
               0x2029, 0x202F, 0x205F, 0x3000, 0xFEFF])"

definition digitValue :: "jschar \<Rightarrow> nat option" where
  "digitValue c =
     (let u = unat c in
      if 48 \<le> u \<and> u \<le> 57 then Some (u - 48)
      else if 97 \<le> u \<and> u \<le> 122 then Some (u - 87)
      else if 65 \<le> u \<and> u \<le> 90 then Some (u - 55)
      else None)"

definition isRadixDigit :: "nat \<Rightarrow> jschar \<Rightarrow> bool" where
  "isRadixDigit R c = (case digitValue c of None \<Rightarrow> False | Some d \<Rightarrow> d < R)"

definition digitsValue :: "nat \<Rightarrow> jsstring \<Rightarrow> nat" where
  "digitsValue R Z = foldl (\<lambda>acc c. acc * R + (case digitValue c of None \<Rightarrow> 0 | Some d \<Rightarrow> d)) 0 Z"

text \<open>
  The mathematical integer that \<open>parseInt(string, radix)\<close> reads before it turns it
  into a double; \<open>None\<close> where \<open>parseInt\<close> returns \<open>NaN\<close>.  Leading white space is
  skipped, a sign is read, a radix of 0 means 10, a radix outside 2..36 gives \<open>NaN\<close>, a
  \<open>0x\<close> prefix is skipped for radix 0 or 16, and the longest prefix of digits of the
  radix is the value.
\<close>

definition mathInt :: "jsstring \<Rightarrow> nat \<Rightarrow> int option" where
  "mathInt string rdx =
     (let S = dropWhile isWhiteSpace string;
          sign = (if S \<noteq> [] \<and> hd S = of_nat 45 then - 1 else 1 :: int);
          S1 = (if S \<noteq> [] \<and> (hd S = of_nat 43 \<or> hd S = of_nat 45) then tl S else S)
      in if rdx \<noteq> 0 \<and> (rdx < 2 \<or> rdx > 36) then None
         else
           let stripPrefix = (rdx = 0 \<or> rdx = 16);
               hasPrefix = (stripPrefix \<and> (take 2 S1 = ascii ''0x'' \<or> take 2 S1 = ascii ''0X''));
               S2 = (if hasPrefix then drop 2 S1 else S1);
               R = (if hasPrefix then 16 else if rdx = 0 then 10 else rdx);
               Z = takeWhile (isRadixDigit R) S2
           in if Z = [] then None else Some (sign * int (digitsValue R Z)))"

definition integerEngine :: engine where
  "integerEngine =
     \<lparr>numberToString =
        (\<lambda>x. case smallInt x of None \<Rightarrow> [] | Some n \<Rightarrow> intText 10 n),
      numberToFixed =
        (\<lambda>x d. if d > 100 then Inl RangeError
               else case smallInt x of
                      None \<Rightarrow> Inr []
                    | Some n \<Rightarrow>
                        Inr (intText 10 n
                             @ (if d = 0 then [] else ascii ''.'' @ replicate d (digitChar 0)))),
      numberToRadix =
        (\<lambda>x rdx. if rdx < 2 \<or> rdx > 36 then Inl RangeError
                 else case smallInt x of None \<Rightarrow> Inr [] | Some n \<Rightarrow> Inr (intText rdx n)),
      parseInt =
        (\<lambda>string rdx.
           case mathInt string rdx of
             None \<Rightarrow> NaN
           | Some n \<Rightarrow> if \<bar>n\<bar> < 2 ^ 53 then Finite (of_int n) else NaN),
      multiply =
        (\<lambda>x y. case (smallInt x, smallInt y) of
                 (Some a, Some b) \<Rightarrow> if \<bar>a * b\<bar> < 2 ^ 53 then Finite (of_int (a * b)) else NaN
               | _ \<Rightarrow> NaN)\<rparr>"



section \<open>Construction and example configurations\<close>

text \<open>
  The state after the constructor on an input element that holds \<open>v\<close>: the first
  segment active (the first editable one in the second class), an empty buffer, and
  the validity set by the first \<open>_updateValidity()\<close>.
\<close>

definition attach :: "config \<Rightarrow> jsstring \<Rightarrow> state" where
  "attach cfg v =
     updateValidity cfg
       \<lparr>input_value = v, activeSegment = 0, segmentBuffer = [], customValidity = [],
        selection = None, actionClass = False, dispatched = []\<rparr>"

definition attach2 :: "config \<Rightarrow> jsstring \<Rightarrow> state" where
  "attach2 cfg v =
     updateValidity2 cfg
       \<lparr>input_value = v,
        activeSegment = (case findEditable cfg 0 Forward of None \<Rightarrow> 0 | Some i \<Rightarrow> i),
        segmentBuffer = [], customValidity = [],
        selection = None, actionClass = False, dispatched = []\<rparr>"

text \<open>\<open>values.join(sep)\<close>: an \<open>undefined\<close> element is joined as the empty text.\<close>

fun join :: "jsstring \<Rightarrow> jsval list \<Rightarrow> jsstring" where
  "join sep [] = []"
| "join sep [v] = (case v of None \<Rightarrow> [] | Some t \<Rightarrow> t)"
| "join sep (v # vs) = (case v of None \<Rightarrow> [] | Some t \<Rightarrow> t) @ sep @ join sep vs"

text \<open>\<open>/\d/.test(key)\<close>: the key holds a decimal digit.\<close>

definition digitPattern :: "jsstring \<Rightarrow> bool" where
  "digitPattern k = list_ex (\<lambda>c. 48 \<le> unat c \<and> unat c \<le> 57) k"

text \<open>
  The \<open>ipv4\<close> preset of src/presets.js: four segments \<open>0..255\<close> with the
  placeholder \<open>--\<close>, joined by dots; \<open>parse\<close> splits at the dots, fills up with
  \<open>0\<close> to four parts and keeps the first four.  The message is the constructor's
  default; the numeric step plays no part in the statements below.  The numbers of
  the examples are small integers, and they run on the engine above.
\<close>

definition ipv4_segment :: segment where
  "ipv4_segment =
     \<lparr>seg_value = Some (ascii ''0''), placeholder = Some (ascii ''--''), seg_type = None,
      options = None, onClick = False, selectable = False,
      seg_min = Some (Finite 0), seg_max = Some (Finite 255), step = Some (Finite 1), radix = None,
      pattern = Some digitPattern, maxLength = None\<rparr>"

definition ipv4 :: config where
  "ipv4 =
     \<lparr>segments = [ipv4_segment, ipv4_segment, ipv4_segment, ipv4_segment],
      format = join (ascii ''.''),
      parse = (\<lambda>str. let parts = split_on (of_nat 46) str
                     in map Some (take 4 (parts @ replicate (4 - length parts) (ascii ''0'')))),
      invalidMessage = ascii ''Please fill in all fields.'',
      numericStep = (\<lambda>seg v d. String_of v),
      runtime = integerEngine\<rparr>"


text \<open>
  A day followed by an action segment that always reads \<open>*\<close>, as the date preset with
  a picker button does with its icon: \<open>format\<close> puts a space between the two and
  \<open>parse\<close> reads the day up to the space.
\<close>

definition picker :: config where
  "picker =
     \<lparr>segments =
        [\<lparr>seg_value = Some (ascii ''01''), placeholder = Some (ascii ''dd''), seg_type = None,
          options = None, onClick = False, selectable = False,
          seg_min = Some (Finite 1), seg_max = Some (Finite 31), step = Some (Finite 1), radix = None,
          pattern = Some digitPattern, maxLength = None\<rparr>,
         \<lparr>seg_value = Some (ascii ''*''), placeholder = Some (ascii ''*''),
          seg_type = Some (ascii ''action''),
          options = None, onClick = False, selectable = False,
          seg_min = None, seg_max = None, step = None, radix = None,
          pattern = None, maxLength = None\<rparr>],
      format = (\<lambda>values. String_of (array_get values 0) @ ascii '' ''
                           @ String_of (array_get values 1)),
      parse = (\<lambda>str. [Some (takeWhile (\<lambda>c. c \<noteq> of_nat 32) str), Some (ascii ''*'')]),
      invalidMessage = ascii ''Please fill in all fields.'',
      numericStep = (\<lambda>seg v d. String_of v),
      runtime = integerEngine\<rparr>"

text \<open>
  A single enumerated segment, the text being the segment's value: the operator of the
  \<open>calc\<close> preset on its own, and a list of options that names \<open>a\<close> twice.
\<close>

definition enumConfig :: "jsstring list \<Rightarrow> config" where
  "enumConfig opts =
     \<lparr>segments =
        [\<lparr>seg_value = None, placeholder = Some (ascii ''?''), seg_type = None,
          options = Some opts, onClick = False, selectable = False,
          seg_min = None, seg_max = None, step = None, radix = None,
          pattern = None, maxLength = None\<rparr>],
      format = (\<lambda>values. String_of (array_get values 0)),
      parse = (\<lambda>str. [Some str]),
      invalidMessage = ascii ''Please fill in all fields.'',
      numericStep = (\<lambda>seg v d. String_of v),
      runtime = integerEngine\<rparr>"

definition operators :: "jsstring list" where
  "operators = [ascii ''+'', ascii ''-'', ascii ''*'', ascii ''/'']"

definition repeated :: "jsstring list" where
  "repeated = [ascii ''a'', ascii ''b'', ascii ''a'']"

section \<open>Notions used in the statements and their proofs\<close>

text \<open>\<open>v\<close> occurs in \<open>s\<close> at position \<open>k\<close>.\<close>

definition occurs_at :: "'a list \<Rightarrow> 'a list \<Rightarrow> nat \<Rightarrow> bool" where
  "occurs_at s v k = (k + length v \<le> length s \<and> take (length v) (drop k s) = v)"

text \<open>
  The search position before the value \<open>i\<close> is looked up: 0 for the first value, the
  end of the previous range afterwards (a zero-width fallback range ends where the
  search stood).
\<close>

definition cursorBefore :: "range list \<Rightarrow> nat \<Rightarrow> nat" where
  "cursorBefore rs i = (if i = 0 then 0 else nat (r_end (rs ! (i - 1))))"

text \<open>One step of the search: the range recorded for the value \<open>v\<close> at position \<open>c\<close>.\<close>

definition locate :: "jsstring \<Rightarrow> nat \<Rightarrow> jsval \<Rightarrow> range" where
  "locate f c v =
     (case indexOf f (String_of v) c of
        None \<Rightarrow> \<lparr>r_start = int c, r_end = int c, r_value = String_of v\<rparr>
      | Some k \<Rightarrow>
          \<lparr>r_start = int k, r_end = int (k + length (String_of v)), r_value = String_of v\<rparr>)"

text \<open>Ranges in ascending order: no range ends before it starts or after the next starts.\<close>

fun ascending :: "range list \<Rightarrow> bool" where
  "ascending [] = True"
| "ascending [r] = (r_start r \<le> r_end r)"
| "ascending (a # b # rs) =
     (r_start a \<le> r_end a \<and> r_end a \<le> r_start b \<and> ascending (b # rs))"

text \<open>The slot \<open>i\<close> of the parsed values holds the placeholder of the segment \<open>i\<close>.\<close>

definition atPlaceholder :: "config \<Rightarrow> jsval list \<Rightarrow> nat \<Rightarrow> bool" where
  "atPlaceholder cfg values i = (array_get values i = Some (placeholderValues cfg ! i))"

text \<open>
  The values that Backspace hands to \<open>format\<close>: the parsed values with the active
  segment's slot set to that segment's placeholder.
\<close>

definition afterBackspace :: "config \<Rightarrow> state \<Rightarrow> jsval list" where
  "afterBackspace cfg s =
     array_set (parse cfg (input_value s)) (activeSegment s)
       (nth_opt (placeholderValues cfg) (activeSegment s))"


text \<open>
  The values that \<open>#adjustSegment\<close> hands to \<open>#formatGuarded\<close> when it writes the
  option \<open>v\<close>: the current values (of the placeholder text when the text is empty)
  with the active segment's slot set to \<open>v\<close>.
\<close>

definition written :: "config \<Rightarrow> state \<Rightarrow> jsstring \<Rightarrow> jsval list" where
  "written cfg s v =
     array_set (currentValues cfg (showPlaceholder2 cfg s)) (activeSegment s) (Some v)"

text \<open>
  Where \<open>_advanceSegment\<close> leaves the active segment: on the next segment when there
  is one, on the same segment when it is the last.
\<close>

definition nextSegment :: "config \<Rightarrow> state \<Rightarrow> nat" where
  "nextSegment cfg s =
     (if activeSegment s + 1 < length (segments cfg) then activeSegment s + 1
      else activeSegment s)"

text \<open>
  The option that \<open>#adjustSegment\<close> writes for an enumerated segment whose slot
  reads \<open>v\<close>.
\<close>

definition cycled :: "jsstring list \<Rightarrow> jsval \<Rightarrow> direction \<Rightarrow> jsval" where
  "cycled opts v d =
     (if opts = [] then None
      else Some (opts ! nat ((int (case firstIndex opts v 0 of None \<Rightarrow> 0 | Some j \<Rightarrow> j)
                               + dir_int d + int (length opts)) mod int (length opts))))"

text \<open>The cursor is inside a range, both ends included.\<close>

definition inside :: "int \<Rightarrow> range \<Rightarrow> bool" where
  "inside cursorPos r = (r_start r \<le> cursorPos \<and> cursorPos \<le> r_end r)"

section \<open>Properties of the range resolution\<close>

subsection \<open>indexOf finds the first occurrence\<close>

lemma take_eq_occurs: "take (length v) s = v \<longleftrightarrow> occurs_at s v 0"
  by (auto simp: occurs_at_def) (metis length_take min.absorb_iff2 nat_le_linear take_all)

lemma find_from_Some:
  "find_from v s k = Some j \<Longrightarrow>
     k \<le> j \<and> occurs_at s v (j - k) \<and> (\<forall>i<j - k. \<not> occurs_at s v i)"
proof (induction v s k rule: find_from.induct)
  case (1 v k)
  then show ?case by (auto simp: occurs_at_def split: if_splits)
next
  case (2 v c s k)
  show ?case
  proof (cases "take (length v) (c # s) = v")
    case True
    with 2 show ?thesis by (simp add: take_eq_occurs)
  next
    case False
    with 2 have f: "find_from v s (Suc k) = Some j" by simp
    from 2(1)[OF False f] have a: "Suc k \<le> j" and b: "occurs_at s v (j - Suc k)"
      and c: "\<forall>i<j - Suc k. \<not> occurs_at s v i" by auto
    have d: "j - k = Suc (j - Suc k)" using a by simp
    have "occurs_at (c # s) v (j - k)" using b unfolding d by (simp add: occurs_at_def)
    moreover have "\<not> occurs_at (c # s) v i" if "i < j - k" for i
    proof (cases i)
      case 0
      then show ?thesis using False by (simp add: take_eq_occurs)
    next
      case (Suc i')
      then have "i' < j - Suc k" using that d by simp
      then show ?thesis using c Suc by (simp add: occurs_at_def)
    qed
    ultimately show ?thesis using a by auto
  qed
qed

lemma find_from_None:
  "find_from v s k = None \<Longrightarrow> \<not> occurs_at s v i"
proof (induction v s k arbitrary: i rule: find_from.induct)
  case (1 v k)
  then show ?case by (auto simp: occurs_at_def split: if_splits)
next
  case (2 v c s k)
  then have ne: "take (length v) (c # s) \<noteq> v" and f: "find_from v s (Suc k) = None"
    by (auto split: if_splits)
  show ?case
  proof (cases i)
    case 0
    then show ?thesis using ne by (simp add: take_eq_occurs)
  next
    case (Suc i')
    from 2(1)[OF ne f, of i'] show ?thesis using Suc by (simp add: occurs_at_def)
  qed
qed

lemma occurs_at_drop: "p \<le> length s \<Longrightarrow> occurs_at (drop p s) v i = occurs_at s v (p + i)"
  by (auto simp: occurs_at_def add.commute)

lemma indexOf_Some:
  assumes "indexOf s v from = Some k"
  shows "min from (length s) \<le> k" and "occurs_at s v k"
    and "\<And>i. min from (length s) \<le> i \<Longrightarrow> i < k \<Longrightarrow> \<not> occurs_at s v i"
proof -
  let ?p = "min from (length s)"
  from assms have f: "find_from v (drop ?p s) ?p = Some k" by (simp add: indexOf_def Let_def)
  note h = find_from_Some[OF f]
  show a: "?p \<le> k" using h by simp
  show "occurs_at s v k" using h a by (simp add: occurs_at_drop)
  fix i assume "?p \<le> i" "i < k"
  then have "i - ?p < k - ?p" by simp
  with h have "\<not> occurs_at (drop ?p s) v (i - ?p)" by blast
  then show "\<not> occurs_at s v i" using \<open>?p \<le> i\<close> by (simp add: occurs_at_drop)
qed

lemma indexOf_None:
  assumes "indexOf s v from = None" and "from \<le> i"
  shows "\<not> occurs_at s v i"
proof (cases "i \<le> length s")
  case True
  let ?p = "min from (length s)"
  from assms have f: "find_from v (drop ?p s) ?p = None" by (simp add: indexOf_def Let_def)
  have "?p \<le> i" using assms by simp
  with find_from_None[OF f, of "i - ?p"] show ?thesis by (simp add: occurs_at_drop)
next
  case False
  then show ?thesis by (simp add: occurs_at_def)
qed



lemma scanRanges_Cons:
  "scanRanges f c (v # vs) = locate f c v # scanRanges f (nat (r_end (locate f c v))) vs"
  by (simp add: locate_def Let_def nat_int_add split: option.splits)

declare scanRanges.simps(2) [simp del]

lemma indexOf_found_iff:
  assumes "c \<le> length f"
  shows "indexOf f v c \<noteq> None \<longleftrightarrow> (\<exists>k\<ge>c. occurs_at f v k)"
proof
  assume "indexOf f v c \<noteq> None"
  then obtain k where k: "indexOf f v c = Some k" by auto
  from indexOf_Some(1,2)[OF k] assms show "\<exists>k\<ge>c. occurs_at f v k" by auto
next
  assume "\<exists>k\<ge>c. occurs_at f v k"
  then show "indexOf f v c \<noteq> None" using indexOf_None by blast
qed

lemma locate_value: "r_value (locate f c v) = String_of v"
  by (simp add: locate_def split: option.splits)

lemma locate_bounds:
  assumes "c \<le> length f"
  shows "int c \<le> r_start (locate f c v)" and "r_start (locate f c v) \<le> r_end (locate f c v)"
    and "nat (r_end (locate f c v)) \<le> length f"
proof -
  show "int c \<le> r_start (locate f c v)"
    using indexOf_Some(1)[of f "String_of v" c] assms
    by (auto simp: locate_def split: option.splits)
  show "r_start (locate f c v) \<le> r_end (locate f c v)"
    by (simp add: locate_def split: option.splits)
  show "nat (r_end (locate f c v)) \<le> length f"
    using indexOf_Some(2)[of f "String_of v" c] assms
    by (auto simp: locate_def occurs_at_def split: option.splits)
qed

lemma locate_found:
  assumes "c \<le> length f" and "\<exists>k\<ge>c. occurs_at f (String_of v) k"
  shows "r_end (locate f c v) = r_start (locate f c v) + int (length (String_of v))"
    and "occurs_at f (String_of v) (nat (r_start (locate f c v)))"
    and "\<And>k. c \<le> k \<Longrightarrow> int k < r_start (locate f c v) \<Longrightarrow> \<not> occurs_at f (String_of v) k"
proof -
  from assms obtain k where k: "indexOf f (String_of v) c = Some k"
    using indexOf_found_iff[OF assms(1), of "String_of v"] by auto
  have l: "locate f c v = \<lparr>r_start = int k, r_end = int (k + length (String_of v)), r_value = String_of v\<rparr>"
    by (simp add: locate_def k)
  show "r_end (locate f c v) = r_start (locate f c v) + int (length (String_of v))"
    by (simp add: l)
  show "occurs_at f (String_of v) (nat (r_start (locate f c v)))"
    using indexOf_Some(2)[OF k] by (simp add: l)
  fix j assume "c \<le> j" "int j < r_start (locate f c v)"
  then show "\<not> occurs_at f (String_of v) j"
    using indexOf_Some(3)[OF k, of j] by (simp add: l)
qed

lemma locate_not_found:
  assumes "c \<le> length f" and "\<not> (\<exists>k\<ge>c. occurs_at f (String_of v) k)"
  shows "locate f c v = \<lparr>r_start = int c, r_end = int c, r_value = String_of v\<rparr>"
  using indexOf_found_iff[OF assms(1), of "String_of v"] assms(2)
  by (simp add: locate_def split: option.splits)

lemma scanRanges_length: "length (scanRanges f c vs) = length vs"
  by (induction vs arbitrary: c) (simp_all add: scanRanges_Cons)

lemma scanRanges_nth:
  "c \<le> length f \<Longrightarrow> i < length vs \<Longrightarrow>
     (if i = 0 then c else nat (r_end (scanRanges f c vs ! (i - 1)))) \<le> length f \<and>
     scanRanges f c vs ! i =
       locate f (if i = 0 then c else nat (r_end (scanRanges f c vs ! (i - 1)))) (vs ! i)"
proof (induction vs arbitrary: c i)
  case Nil
  then show ?case by simp
next
  case (Cons v vs)
  let ?c' = "nat (r_end (locate f c v))"
  have c': "?c' \<le> length f" by (rule locate_bounds(3)[OF Cons.prems(1)])
  show ?case
  proof (cases i)
    case 0
    then show ?thesis using Cons.prems by (simp add: scanRanges_Cons)
  next
    case (Suc j)
    then have j: "j < length vs" using Cons.prems by simp
    from Cons.IH[OF c' j] show ?thesis
      unfolding scanRanges_Cons Suc by (cases j) simp_all
  qed
qed

lemma scanRanges_ascending:
  "c \<le> length f \<Longrightarrow> ascending (scanRanges f c vs) \<and>
     (\<forall>r\<in>set (scanRanges f c vs). int c \<le> r_start r)"
proof (induction vs arbitrary: c)
  case Nil
  then show ?case by simp
next
  case (Cons v vs)
  let ?r = "locate f c v"
  let ?c' = "nat (r_end ?r)"
  have c': "?c' \<le> length f" by (rule locate_bounds(3)[OF Cons.prems(1)])
  note b = locate_bounds(1,2)[OF Cons.prems(1), of v]
  from Cons.IH[OF c'] have ih1: "ascending (scanRanges f ?c' vs)"
    and ih2: "\<forall>r\<in>set (scanRanges f ?c' vs). int ?c' \<le> r_start r" by auto
  have e: "int ?c' = r_end ?r" using b by simp
  have "ascending (?r # scanRanges f ?c' vs)"
  proof (cases "scanRanges f ?c' vs")
    case Nil
    then show ?thesis using b by simp
  next
    case (Cons r' rs')
    then have "r_end ?r \<le> r_start r'" using ih2 e by simp
    then show ?thesis using b ih1 Cons by simp
  qed
  moreover have "\<forall>r\<in>set (?r # scanRanges f ?c' vs). int c \<le> r_start r"
    using b ih2 e by auto
  ultimately show ?case by (simp only: scanRanges_Cons) 
qed

lemma ascending_Cons_all:
  "ascending (a # rs) \<Longrightarrow> r_start a \<le> r_end a \<and> ascending rs \<and>
     (\<forall>r\<in>set rs. r_end a \<le> r_start r \<and> r_start r \<le> r_end r)"
proof (induction rs arbitrary: a)
  case Nil
  then show ?case by simp
next
  case (Cons b rs)
  then have 1: "r_start a \<le> r_end a" and 2: "r_end a \<le> r_start b" and 3: "ascending (b # rs)"
    by auto
  from Cons.IH[OF 3] show ?case using 1 2 3 by fastforce
qed

lemma ascending_nth:
  "ascending rs \<Longrightarrow> j < length rs \<Longrightarrow>
     r_start (rs ! j) \<le> r_end (rs ! j) \<and> (\<forall>i<j. r_end (rs ! i) \<le> r_start (rs ! j))"
proof (induction rs arbitrary: j)
  case Nil
  then show ?case by simp
next
  case (Cons a rs)
  note h = ascending_Cons_all[OF Cons.prems(1)]
  show ?case
  proof (cases j)
    case 0
    then show ?thesis using h by simp
  next
    case (Suc j')
    then have j': "j' < length rs" using Cons.prems by simp
    from Cons.IH[OF _ j'] h have ih: "r_start (rs ! j') \<le> r_end (rs ! j')"
      "\<forall>i<j'. r_end (rs ! i) \<le> r_start (rs ! j')" by auto
    have "r_end ((a # rs) ! i) \<le> r_start ((a # rs) ! j)" if "i < j" for i
    proof (cases i)
      case 0
      then show ?thesis using h j' Suc by simp
    next
      case (Suc i')
      then show ?thesis using ih(2) that \<open>j = Suc j'\<close> by simp
    qed
    then show ?thesis using ih(1) Suc by simp
  qed
qed

text \<open>
  Claim C1.  For every text, \<open>parse\<close> and \<open>format\<close>, \<open>getSegmentRanges\<close> returns
  exactly one range per element of \<open>parse(text)\<close>, carrying that element's text as
  its value.  A value that occurs in \<open>format(parse(text))\<close> at or after the search
  position gets the range of its first such occurrence, so that
  \<open>end = start + length(value)\<close>; a value that does not occur there gets the
  zero-width range at the search position.  No range starts before the search
  position or ends before it starts, and an earlier range ends no later than a later
  one starts: the ranges are in ascending order and do not overlap.
\<close>

theorem getSegmentRanges_one_range_per_value:
  "length (getSegmentRanges txt prs fmt) = length (prs txt) \<and>
   (\<forall>i<length (prs txt).
      let rs = getSegmentRanges txt prs fmt;
          f = fmt (prs txt);
          v = String_of (prs txt ! i);
          c = cursorBefore rs i;
          r = rs ! i
      in r_value r = v \<and> int c \<le> r_start r \<and> r_start r \<le> r_end r \<and>
         ((\<exists>k\<ge>c. occurs_at f v k) \<longrightarrow>
            r_end r = r_start r + int (length v) \<and>
            occurs_at f v (nat (r_start r)) \<and>
            (\<forall>k. c \<le> k \<and> int k < r_start r \<longrightarrow> \<not> occurs_at f v k)) \<and>
         (\<not> (\<exists>k\<ge>c. occurs_at f v k) \<longrightarrow> r_start r = int c \<and> r_end r = int c)) \<and>
   (\<forall>i j. i < j \<and> j < length (prs txt) \<longrightarrow>
      r_end (getSegmentRanges txt prs fmt ! i)
        \<le> r_start (getSegmentRanges txt prs fmt ! j))"
proof -
  let ?vs = "prs txt"
  let ?f = "fmt ?vs"
  let ?rs = "scanRanges ?f 0 ?vs"
  have rs: "getSegmentRanges txt prs fmt = ?rs"
    by (simp add: getSegmentRanges_def Let_def)
  have len: "length ?rs = length ?vs" by (rule scanRanges_length)
  have asc: "ascending ?rs" using scanRanges_ascending[of 0 ?f ?vs] by simp
  have each: "r_value (?rs ! i) = String_of (?vs ! i) \<and>
        int (cursorBefore ?rs i) \<le> r_start (?rs ! i) \<and> r_start (?rs ! i) \<le> r_end (?rs ! i) \<and>
         ((\<exists>k\<ge>cursorBefore ?rs i. occurs_at ?f (String_of (?vs ! i)) k) \<longrightarrow>
            r_end (?rs ! i) = r_start (?rs ! i) + int (length (String_of (?vs ! i))) \<and>
            occurs_at ?f (String_of (?vs ! i)) (nat (r_start (?rs ! i))) \<and>
            (\<forall>k. cursorBefore ?rs i \<le> k \<and> int k < r_start (?rs ! i)
                 \<longrightarrow> \<not> occurs_at ?f (String_of (?vs ! i)) k)) \<and>
         (\<not> (\<exists>k\<ge>cursorBefore ?rs i. occurs_at ?f (String_of (?vs ! i)) k) \<longrightarrow>
            r_start (?rs ! i) = int (cursorBefore ?rs i) \<and> r_end (?rs ! i) = int (cursorBefore ?rs i))"
    if i: "i < length ?vs" for i
  proof -
    let ?c = "cursorBefore ?rs i"
    from scanRanges_nth[of 0 ?f i ?vs] i
    have c: "?c \<le> length ?f" and r: "?rs ! i = locate ?f ?c (?vs ! i)"
      by (simp_all add: cursorBefore_def)
    show ?thesis
      unfolding r
      using locate_value[of ?f ?c "?vs ! i"] locate_bounds(1,2)[OF c, of "?vs ! i"]
        locate_found[OF c, of "?vs ! i"] locate_not_found[OF c, of "?vs ! i"]
      by auto
  qed
  have ord: "r_end (?rs ! i) \<le> r_start (?rs ! j)" if "i < j" "j < length ?vs" for i j
    using ascending_nth[OF asc, of j] that len by simp
  show ?thesis
    unfolding rs Let_def using len each ord by blast
qed

text \<open>
  The theorem at the text \<open>00:00\<close> of two segments that both read \<open>00\<close>: the second
  value is found after the first one, at 3.
\<close>

theorem getSegmentRanges_one_range_per_value_witness:
  "length (getSegmentRanges (ascii ''00:00'')
             (\<lambda>t. [Some (take 2 t), Some (drop 3 t)])
             (\<lambda>vs. String_of (array_get vs 0) @ ascii '':'' @ String_of (array_get vs 1))) = 2 \<and>
   r_value (getSegmentRanges (ascii ''00:00'')
             (\<lambda>t. [Some (take 2 t), Some (drop 3 t)])
             (\<lambda>vs. String_of (array_get vs 0) @ ascii '':'' @ String_of (array_get vs 1)) ! 1)
     = ascii ''00'' \<and>
   r_end (getSegmentRanges (ascii ''00:00'')
             (\<lambda>t. [Some (take 2 t), Some (drop 3 t)])
             (\<lambda>vs. String_of (array_get vs 0) @ ascii '':'' @ String_of (array_get vs 1)) ! 1)
     = r_start (getSegmentRanges (ascii ''00:00'')
             (\<lambda>t. [Some (take 2 t), Some (drop 3 t)])
             (\<lambda>vs. String_of (array_get vs 0) @ ascii '':'' @ String_of (array_get vs 1)) ! 1) + 2 \<and>
   r_end (getSegmentRanges (ascii ''00:00'')
             (\<lambda>t. [Some (take 2 t), Some (drop 3 t)])
             (\<lambda>vs. String_of (array_get vs 0) @ ascii '':'' @ String_of (array_get vs 1)) ! 0)
     \<le> r_start (getSegmentRanges (ascii ''00:00'')
             (\<lambda>t. [Some (take 2 t), Some (drop 3 t)])
             (\<lambda>vs. String_of (array_get vs 0) @ ascii '':'' @ String_of (array_get vs 1)) ! 1)"
proof -
  let ?T = "ascii ''00:00''"
  let ?P = "\<lambda>t::jsstring. [Some (take 2 t), Some (drop 3 t)]"
  let ?F = "\<lambda>vs. String_of (array_get vs 0) @ ascii '':'' @ String_of (array_get vs 1)"
  let ?rs = "getSegmentRanges ?T ?P ?F"
  have len: "length (?P ?T) = 2" by simp
  have v: "String_of (?P ?T ! 1) = ascii ''00''" by code_simp
  have occ: "occurs_at (?F (?P ?T)) (ascii ''00'') 3" by code_simp
  have cur: "cursorBefore ?rs 1 \<le> 3" by code_simp
  from occ cur have ex: "\<exists>k\<ge>cursorBefore ?rs 1. occurs_at (?F (?P ?T)) (ascii ''00'') k"
    by blast
  note th = getSegmentRanges_one_range_per_value[of ?T ?P ?F]
  have l: "length ?rs = 2" using th[THEN conjunct1] len by simp
  have i1: "(1::nat) < length (?P ?T)" by simp
  have i01: "(0::nat) < 1 \<and> 1 < length (?P ?T)" by simp
  note e = th[THEN conjunct2, THEN conjunct1, rule_format, OF i1, unfolded Let_def v]
  have val: "r_value (?rs ! 1) = ascii ''00''" by (rule e[THEN conjunct1])
  have fnd: "r_end (?rs ! 1) = r_start (?rs ! 1) + int (length (ascii ''00''))"
    by (rule e[THEN conjunct2, THEN conjunct2, THEN conjunct2, THEN conjunct1, rule_format,
          OF ex, THEN conjunct1])
  have two: "int (length (ascii ''00'')) = 2" by (simp add: ascii_def)
  have ord: "r_end (?rs ! 0) \<le> r_start (?rs ! 1)"
    by (rule th[THEN conjunct2, THEN conjunct2, rule_format, OF i01])
  show ?thesis using l val fnd[unfolded two] ord by (intro conjI)
qed

section \<open>Properties of the cursor mapping\<close>

lemma exactHit_Some_bounds:
  "exactHit p rs k = Some i \<Longrightarrow> k \<le> i \<and> i < k + length rs"
  by (induction rs arbitrary: k) (fastforce split: if_splits)+

lemma nearestSide_Some_bounds:
  "nearestSide p rs k = Some i \<Longrightarrow> k \<le> i \<and> i < k + length rs"
  by (induction p rs k rule: nearestSide.induct) (fastforce split: if_splits)+

lemma exactHit_None: "exactHit p rs k = None \<longleftrightarrow> (\<forall>r\<in>set rs. \<not> inside p r)"
  by (induction rs arbitrary: k) (auto simp: inside_def)

lemma exactHit_first:
  "j < length rs \<Longrightarrow> inside p (rs ! j) \<Longrightarrow> (\<forall>i<j. \<not> inside p (rs ! i)) \<Longrightarrow>
     exactHit p rs k = Some (k + j)"
proof (induction rs arbitrary: k j)
  case Nil
  then show ?case by simp
next
  case (Cons r rs)
  show ?case
  proof (cases j)
    case 0
    then show ?thesis using Cons.prems by (simp add: inside_def)
  next
    case (Suc j')
    then have a: "\<not> inside p r" using Cons.prems(3) by auto
    have "exactHit p rs (Suc k) = Some (Suc k + j')"
      using Cons.prems Suc by (intro Cons.IH) auto
    then show ?thesis using a Suc by (simp add: inside_def)
  qed
qed

text \<open>
  Claim C2.  For a non-empty list of \<open>n\<close> ranges and every integer cursor offset,
  negative ones and ones past the end of the text included, \<open>getCursorSegment\<close>
  returns an index below \<open>n\<close>; for the empty list it returns 0.
\<close>

theorem getCursorSegment_in_range:
  "(segmentRanges \<noteq> [] \<longrightarrow> getCursorSegment cursorPos segmentRanges < length segmentRanges) \<and>
   getCursorSegment cursorPos [] = 0"
proof -
  have "getCursorSegment cursorPos segmentRanges < length segmentRanges"
    if ne: "segmentRanges \<noteq> []"
  proof -
    have pos: "0 < length segmentRanges" using ne by simp
    show ?thesis
    proof (cases "exactHit cursorPos segmentRanges 0")
      case (Some i)
      then show ?thesis using exactHit_Some_bounds[OF Some] ne
        by (simp add: getCursorSegment_def)
    next
      case None
      show ?thesis
      proof (cases "nearestSide cursorPos segmentRanges 0")
        case (Some i)
        then show ?thesis using nearestSide_Some_bounds[OF Some] None pos
          by (simp add: getCursorSegment_def)
      next
        case n: None
        then show ?thesis using None pos by (simp add: getCursorSegment_def)
      qed
    qed
  qed
  then show ?thesis by (simp add: getCursorSegment_def)
qed

text \<open>The theorem at an offset before the text and at one past its end.\<close>

theorem getCursorSegment_in_range_witness:
  "[\<lparr>r_start = 0, r_end = 2, r_value = ascii ''00''\<rparr>,
    \<lparr>r_start = 3, r_end = 5, r_value = ascii ''00''\<rparr>] \<noteq> [] \<and>
   getCursorSegment (- 5)
     [\<lparr>r_start = 0, r_end = 2, r_value = ascii ''00''\<rparr>,
      \<lparr>r_start = 3, r_end = 5, r_value = ascii ''00''\<rparr>] < 2 \<and>
   getCursorSegment 10
     [\<lparr>r_start = 0, r_end = 2, r_value = ascii ''00''\<rparr>,
      \<lparr>r_start = 3, r_end = 5, r_value = ascii ''00''\<rparr>] < 2"
  using getCursorSegment_in_range[of "[\<lparr>r_start = 0, r_end = 2, r_value = ascii ''00''\<rparr>,
      \<lparr>r_start = 3, r_end = 5, r_value = ascii ''00''\<rparr>]" "- 5"]
    getCursorSegment_in_range[of "[\<lparr>r_start = 0, r_end = 2, r_value = ascii ''00''\<rparr>,
      \<lparr>r_start = 3, r_end = 5, r_value = ascii ''00''\<rparr>]" 10]
  by simp

lemma ascending_mono:
  assumes "ascending rs" and "i \<le> j" and "j < length rs"
  shows "r_start (rs ! i) \<le> r_start (rs ! j)" and "r_end (rs ! i) \<le> r_end (rs ! j)"
proof -
  have a: "r_start (rs ! i) \<le> r_end (rs ! i)" using ascending_nth[OF assms(1), of i] assms by simp
  have b: "r_start (rs ! j) \<le> r_end (rs ! j)" using ascending_nth[OF assms(1), of j] assms by simp
  have c: "i < j \<Longrightarrow> r_end (rs ! i) \<le> r_start (rs ! j)"
    using ascending_nth[OF assms(1), of j] assms by simp
  show "r_start (rs ! i) \<le> r_start (rs ! j)" using a c assms(2) by (cases "i = j") auto
  show "r_end (rs ! i) \<le> r_end (rs ! j)" using b c assms(2) by (cases "i = j") auto
qed

lemma nearestSide_gap:
  "ascending rs \<Longrightarrow> Suc i < length rs \<Longrightarrow> r_end (rs ! i) < p \<Longrightarrow> p < r_start (rs ! Suc i) \<Longrightarrow>
     nearestSide p rs k =
       Some (if p - r_end (rs ! i) \<le> r_start (rs ! Suc i) - p then k + i else k + i + 1)"
proof (induction p rs k arbitrary: i rule: nearestSide.induct)
  case (1 p a b rs k)
  show ?case
  proof (cases i)
    case 0
    then show ?thesis using 1 by (simp add: Let_def)
  next
    case (Suc i')
    have asc: "ascending (b # rs)" using "1.prems"(1) by simp
    have "r_start b \<le> r_start ((b # rs) ! i')"
      using ascending_mono(1)[OF asc, of 0 i'] "1.prems"(2) Suc by simp
    also have "\<dots> \<le> r_end ((b # rs) ! i')"
      using ascending_nth[OF asc, of i'] "1.prems"(2) Suc by simp
    also have "\<dots> < p" using "1.prems"(3) Suc by simp
    finally have nb: "\<not> p < r_start b" by simp
    then have no: "\<not> (p > r_end a \<and> p < r_start b)" by simp
    have ih: "nearestSide p (b # rs) (Suc k) =
       Some (if p - r_end ((b # rs) ! i') \<le> r_start ((b # rs) ! Suc i') - p
             then Suc k + i' else Suc k + i' + 1)"
      using "1.prems" Suc asc by (intro "1.IH"[OF no]) auto
    have step: "nearestSide p (a # b # rs) k = nearestSide p (b # rs) (Suc k)"
      using nb by simp
    show ?thesis unfolding step ih Suc by simp
  qed
qed simp_all

text \<open>
  Claim C3.  For ranges in ascending order and an offset strictly between the end of
  the range \<open>i\<close> and the start of the range \<open>i + 1\<close>, \<open>getCursorSegment\<close> returns
  the nearer of the two, the distance taken from the left range's end and from the
  right range's start, and the left one when the distances are equal.  An offset
  inside a range, its start and its end included, belongs to the first range that
  contains it, whatever the order of the ranges.
\<close>

theorem getCursorSegment_separator_and_boundary:
  "(ascending segmentRanges \<and> Suc i < length segmentRanges \<and>
      r_end (segmentRanges ! i) < cursorPos \<and> cursorPos < r_start (segmentRanges ! Suc i) \<longrightarrow>
      getCursorSegment cursorPos segmentRanges =
        (if cursorPos - r_end (segmentRanges ! i) \<le> r_start (segmentRanges ! Suc i) - cursorPos
         then i else Suc i)) \<and>
   (j < length segmentRanges \<and> inside cursorPos (segmentRanges ! j) \<and>
      (\<forall>j'<j. \<not> inside cursorPos (segmentRanges ! j')) \<longrightarrow>
      getCursorSegment cursorPos segmentRanges = j)"
proof (intro conjI impI)
  assume h: "ascending segmentRanges \<and> Suc i < length segmentRanges \<and>
      r_end (segmentRanges ! i) < cursorPos \<and> cursorPos < r_start (segmentRanges ! Suc i)"
  let ?rs = segmentRanges
  let ?n = "length ?rs"
  from h have asc: "ascending ?rs" and i: "Suc i < ?n"
    and l: "r_end (?rs ! i) < cursorPos" and r: "cursorPos < r_start (?rs ! Suc i)" by auto
  have ne: "?rs \<noteq> []" using i by auto
  have out: "\<not> inside cursorPos (?rs ! m)" if m: "m < ?n" for m
  proof (cases "m \<le> i")
    case True
    then have "r_end (?rs ! m) \<le> r_end (?rs ! i)" using ascending_mono(2)[OF asc, of m i] i by simp
    then show ?thesis using l by (simp add: inside_def)
  next
    case False
    then have "r_start (?rs ! Suc i) \<le> r_start (?rs ! m)"
      using ascending_mono(1)[OF asc, of "Suc i" m] m by simp
    then show ?thesis using r by (simp add: inside_def)
  qed
  then have eh: "exactHit cursorPos ?rs 0 = None"
    unfolding exactHit_None by (auto simp: in_set_conv_nth)
  have "r_start (?rs ! 0) \<le> r_start (?rs ! i)" using ascending_mono(1)[OF asc, of 0 i] i by simp
  also have "\<dots> \<le> r_end (?rs ! i)" using ascending_nth[OF asc, of i] i by simp
  finally have nb: "\<not> cursorPos < r_start (hd ?rs)" using l ne by (simp add: hd_conv_nth)
  have "r_start (?rs ! Suc i) \<le> r_start (?rs ! (?n - 1))"
    using ascending_mono(1)[OF asc, of "Suc i" "?n - 1"] i by simp
  also have "\<dots> \<le> r_end (?rs ! (?n - 1))" using ascending_nth[OF asc, of "?n - 1"] i by simp
  finally have na: "\<not> cursorPos > r_end (last ?rs)" using r ne by (simp add: last_conv_nth)
  show "getCursorSegment cursorPos ?rs =
        (if cursorPos - r_end (?rs ! i) \<le> r_start (?rs ! Suc i) - cursorPos then i else Suc i)"
    using nearestSide_gap[OF asc i l r, of 0] eh nb na ne
    by (simp add: getCursorSegment_def)
next
  assume h: "j < length segmentRanges \<and> inside cursorPos (segmentRanges ! j) \<and>
      (\<forall>j'<j. \<not> inside cursorPos (segmentRanges ! j'))"
  then have "exactHit cursorPos segmentRanges 0 = Some (0 + j)"
    by (intro exactHit_first) auto
  moreover have "segmentRanges \<noteq> []" using h by auto
  ultimately show "getCursorSegment cursorPos segmentRanges = j"
    by (simp add: getCursorSegment_def)
qed

text \<open>
  The theorem at two ranges with a gap of two: the offset 3 is as far from the left
  range as from the right one and goes to the left; the offset 4 is the start of the
  right range.
\<close>

theorem getCursorSegment_separator_and_boundary_witness:
  "ascending [\<lparr>r_start = 0, r_end = 2, r_value = ascii ''12''\<rparr>,
              \<lparr>r_start = 4, r_end = 6, r_value = ascii ''30''\<rparr>] \<and>
   getCursorSegment 3 [\<lparr>r_start = 0, r_end = 2, r_value = ascii ''12''\<rparr>,
                       \<lparr>r_start = 4, r_end = 6, r_value = ascii ''30''\<rparr>] = 0 \<and>
   inside 4 (\<lparr>r_start = 4, r_end = 6, r_value = ascii ''30''\<rparr>) \<and>
   getCursorSegment 4 [\<lparr>r_start = 0, r_end = 2, r_value = ascii ''12''\<rparr>,
                       \<lparr>r_start = 4, r_end = 6, r_value = ascii ''30''\<rparr>] = 1"
proof -
  let ?R = "[\<lparr>r_start = 0, r_end = 2, r_value = ascii ''12''\<rparr>,
             \<lparr>r_start = 4, r_end = 6, r_value = ascii ''30''\<rparr>]"
  have a: "ascending ?R" by simp
  have g: "ascending ?R \<and> Suc 0 < length ?R \<and> r_end (?R ! 0) < 3 \<and> 3 < r_start (?R ! Suc 0)"
    by simp
  have i: "inside 4 (?R ! 1)" by (simp add: inside_def)
  have b: "1 < length ?R \<and> inside 4 (?R ! 1) \<and> (\<forall>j'<1. \<not> inside 4 (?R ! j'))"
    by (simp add: inside_def)
  from getCursorSegment_separator_and_boundary[of ?R 0 3 1] g
  have r1: "getCursorSegment 3 ?R = 0" by simp
  from getCursorSegment_separator_and_boundary[of ?R 0 4 1] b
  have r2: "getCursorSegment 4 ?R = 1" by blast
  show ?thesis using a r1 r2 i by simp
qed

section \<open>Properties of the controller\<close>

subsection \<open>What the helpers leave unchanged\<close>

lemma length_placeholderValues [simp]: "length (placeholderValues cfg) = length (segments cfg)"
  by (simp add: placeholderValues_def)

lemma highlightSegment_fields [simp]:
  "input_value (highlightSegment s i rs) = input_value s"
  "activeSegment (highlightSegment s i rs) = activeSegment s"
  "segmentBuffer (highlightSegment s i rs) = segmentBuffer s"
  "customValidity (highlightSegment s i rs) = customValidity s"
  "actionClass (highlightSegment s i rs) = actionClass s"
  "dispatched (highlightSegment s i rs) = dispatched s"
  by (simp_all add: highlightSegment_def split: option.splits)

lemma dispatch_fields [simp]:
  "input_value (dispatch e s) = input_value s"
  "activeSegment (dispatch e s) = activeSegment s"
  "segmentBuffer (dispatch e s) = segmentBuffer s"
  "customValidity (dispatch e s) = customValidity s"
  "selection (dispatch e s) = selection s"
  "actionClass (dispatch e s) = actionClass s"
  "dispatched (dispatch e s) = dispatched s @ [e]"
  by (simp_all add: dispatch_def)

lemma emit_fields [simp]:
  "input_value (emit e s) = input_value s"
  "activeSegment (emit e s) = activeSegment s"
  "segmentBuffer (emit e s) = segmentBuffer s"
  "customValidity (emit e s) = customValidity s"
  "selection (emit e s) = selection s"
  "actionClass (emit e s) = actionClass s"
  "dispatched (emit e s) = dispatched s @ [e]"
  by (simp_all add: emit_def)

lemma updateValidity_eq:
  "updateValidity cfg s =
     s\<lparr>customValidity :=
         (if input_value s \<noteq> [] \<and>
             (\<exists>i<length (segments cfg). atPlaceholder cfg (parse cfg (input_value s)) i)
          then invalidMessage cfg else [])\<rparr>"
  by (auto simp: updateValidity_def Let_def list_ex_iff atPlaceholder_def)

lemma updateValidity2_eq:
  "updateValidity2 cfg s =
     s\<lparr>customValidity :=
         (if input_value s \<noteq> [] \<and>
             (\<exists>i<length (segments cfg). \<not> isActionSegment (Some (segments cfg ! i)) \<and>
                 atPlaceholder cfg (currentValues cfg s) i)
          then invalidMessage cfg else [])\<rparr>"
  by (auto simp: updateValidity2_def Let_def list_ex_iff atPlaceholder_def nth_opt_def)

lemma isPlaceholderState_iff:
  "isPlaceholderState cfg s \<longleftrightarrow>
     input_value s = [] \<or>
     (\<forall>i<length (segments cfg). atPlaceholder cfg (parse cfg (input_value s)) i)"
  by (auto simp: isPlaceholderState_def Let_def list_all_iff atPlaceholder_def)

lemma isPlaceholderState2_iff:
  "isPlaceholderState2 cfg s \<longleftrightarrow>
     input_value s = [] \<or>
     (\<forall>i<length (segments cfg). \<not> isActionSegment (Some (segments cfg ! i)) \<longrightarrow>
         atPlaceholder cfg (currentValues cfg s) i)"
  by (auto simp: isPlaceholderState2_def Let_def list_all_iff atPlaceholder_def nth_opt_def)
lemma focusSegment_fields [simp]:
  "input_value (focusSegment cfg index s) = input_value s"
  "activeSegment (focusSegment cfg index s) = nat (max 0 (min index (int (length (segments cfg)) - 1)))"
  "segmentBuffer (focusSegment cfg index s) = []"
  "customValidity (focusSegment cfg index s) = customValidity s"
  "actionClass (focusSegment cfg index s) = actionClass s"
  "dispatched (focusSegment cfg index s) = dispatched s"
  by (simp_all add: focusSegment_def Let_def)

subsection \<open>Validity\<close>

text \<open>
  Claim C6.  \<open>_updateValidity\<close> changes nothing but the custom validity message.
  With an empty text the message is cleared.  With a non-empty text the message is
  the configured invalid message if and only if some segment's parsed value equals
  its placeholder value, and is cleared otherwise; in the class with action segments
  (\<open>#updateValidity\<close>) only the segments that are no action segments count, and the
  values are parsed from the text without its zero-width guards.
\<close>

theorem updateValidity_iff_placeholder:
  "updateValidity cfg s =
     s\<lparr>customValidity := customValidity (updateValidity cfg s)\<rparr> \<and>
   updateValidity2 cfg s =
     s\<lparr>customValidity := customValidity (updateValidity2 cfg s)\<rparr> \<and>
   (input_value s = [] \<longrightarrow>
      customValidity (updateValidity cfg s) = [] \<and>
      customValidity (updateValidity2 cfg s) = []) \<and>
   (input_value s \<noteq> [] \<longrightarrow>
      customValidity (updateValidity cfg s) =
        (if \<exists>i<length (segments cfg). atPlaceholder cfg (parse cfg (input_value s)) i
         then invalidMessage cfg else []) \<and>
      customValidity (updateValidity2 cfg s) =
        (if \<exists>i<length (segments cfg). \<not> isActionSegment (Some (segments cfg ! i)) \<and>
               atPlaceholder cfg (currentValues cfg s) i
         then invalidMessage cfg else []))"
  by (simp add: updateValidity_eq updateValidity2_eq)

text \<open>
  The theorem at an address whose second segment still reads \<open>--\<close>, at a day that
  still reads \<open>dd\<close> before the action segment, and at the empty text.
\<close>

theorem updateValidity_iff_placeholder_witness:
  "input_value (attach ipv4 (ascii ''192.--.1.1'')) \<noteq> [] \<and>
   customValidity (updateValidity ipv4 (attach ipv4 (ascii ''192.--.1.1'')))
     = ascii ''Please fill in all fields.'' \<and>
   customValidity (updateValidity2 picker (attach2 picker (ascii ''dd *'')))
     = ascii ''Please fill in all fields.'' \<and>
   customValidity (updateValidity ipv4 (attach ipv4 [])) = [] \<and>
   customValidity (updateValidity2 picker (attach2 picker [])) = []"
proof -
  let ?s = "attach ipv4 (ascii ''192.--.1.1'')"
  let ?p = "attach2 picker (ascii ''dd *'')"
  have ne: "input_value ?s \<noteq> []" by code_simp
  have nep: "input_value ?p \<noteq> []" by code_simp
  have "1 < length (segments ipv4) \<and> atPlaceholder ipv4 (parse ipv4 (input_value ?s)) 1"
    by code_simp
  then have ex: "\<exists>i<length (segments ipv4). atPlaceholder ipv4 (parse ipv4 (input_value ?s)) i"
    by blast
  have "0 < length (segments picker) \<and> \<not> isActionSegment (Some (segments picker ! 0)) \<and>
        atPlaceholder picker (currentValues picker ?p) 0"
    by code_simp
  then have exp: "\<exists>i<length (segments picker). \<not> isActionSegment (Some (segments picker ! i)) \<and>
        atPlaceholder picker (currentValues picker ?p) i"
    by blast
  have m: "invalidMessage ipv4 = ascii ''Please fill in all fields.''"
    "invalidMessage picker = ascii ''Please fill in all fields.''" by code_simp+
  have e: "input_value (attach ipv4 []) = []" "input_value (attach2 picker []) = []"
    by code_simp+
  note a = updateValidity_iff_placeholder[of ipv4 ?s, THEN conjunct2, THEN conjunct2,
      THEN conjunct2, rule_format, OF ne, THEN conjunct1]
  note b = updateValidity_iff_placeholder[of picker ?p, THEN conjunct2, THEN conjunct2,
      THEN conjunct2, rule_format, OF nep, THEN conjunct2]
  note c = updateValidity_iff_placeholder[of ipv4 "attach ipv4 []", THEN conjunct2,
      THEN conjunct2, THEN conjunct1, rule_format, OF e(1), THEN conjunct1]
  note d = updateValidity_iff_placeholder[of picker "attach2 picker []", THEN conjunct2,
      THEN conjunct2, THEN conjunct1, rule_format, OF e(2), THEN conjunct2]
  show ?thesis using ne a b c d ex exp m by simp
qed

subsection \<open>Blur\<close>

text \<open>
  Claim C8.  At blur, if the text is empty or every segment's parsed value equals its
  placeholder, the text is cleared, the active segment is reset to 0, the buffer is
  cleared and the validity recomputed on the empty text is the empty message; if the
  text is not empty and some segment holds another value than its placeholder, the
  text, the active segment and the buffer are left as they are and the validity is
  recomputed on that text.  In the class with action segments the same holds with
  the action segments left out of both conditions.
\<close>

theorem onBlurOut_clears_placeholder_state:
  "(input_value s = [] \<or>
      (\<forall>i<length (segments cfg). atPlaceholder cfg (parse cfg (input_value s)) i) \<longrightarrow>
      onBlurOut cfg s =
        s\<lparr>input_value := [], activeSegment := 0, segmentBuffer := [], customValidity := []\<rparr>) \<and>
   (input_value s \<noteq> [] \<and>
      (\<exists>i<length (segments cfg). \<not> atPlaceholder cfg (parse cfg (input_value s)) i) \<longrightarrow>
      onBlurOut cfg s = updateValidity cfg s \<and>
      input_value (onBlurOut cfg s) = input_value s \<and>
      activeSegment (onBlurOut cfg s) = activeSegment s \<and>
      segmentBuffer (onBlurOut cfg s) = segmentBuffer s) \<and>
   (input_value s = [] \<or>
      (\<forall>i<length (segments cfg). \<not> isActionSegment (Some (segments cfg ! i)) \<longrightarrow>
          atPlaceholder cfg (currentValues cfg s) i) \<longrightarrow>
      input_value (onBlurOut2 cfg s) = [] \<and>
      activeSegment (onBlurOut2 cfg s) = 0 \<and>
      segmentBuffer (onBlurOut2 cfg s) = [] \<and>
      customValidity (onBlurOut2 cfg s) = []) \<and>
   (input_value s \<noteq> [] \<and>
      (\<exists>i<length (segments cfg). \<not> isActionSegment (Some (segments cfg ! i)) \<and>
          \<not> atPlaceholder cfg (currentValues cfg s) i) \<longrightarrow>
      input_value (onBlurOut2 cfg s) = input_value s \<and>
      activeSegment (onBlurOut2 cfg s) = activeSegment s \<and>
      segmentBuffer (onBlurOut2 cfg s) = segmentBuffer s \<and>
      customValidity (onBlurOut2 cfg s) = customValidity (updateValidity2 cfg s))"
proof (intro conjI impI)
  assume "input_value s = [] \<or>
      (\<forall>i<length (segments cfg). atPlaceholder cfg (parse cfg (input_value s)) i)"
  then have "isPlaceholderState cfg s" by (simp add: isPlaceholderState_iff)
  then show "onBlurOut cfg s =
        s\<lparr>input_value := [], activeSegment := 0, segmentBuffer := [], customValidity := []\<rparr>"
    by (simp add: onBlurOut_def updateValidity_eq)
next
  assume h: "input_value s \<noteq> [] \<and>
      (\<exists>i<length (segments cfg). \<not> atPlaceholder cfg (parse cfg (input_value s)) i)"
  then have n: "\<not> isPlaceholderState cfg s" by (auto simp: isPlaceholderState_iff)
  then show "onBlurOut cfg s = updateValidity cfg s" by (simp add: onBlurOut_def)
  then show "input_value (onBlurOut cfg s) = input_value s"
    "activeSegment (onBlurOut cfg s) = activeSegment s"
    "segmentBuffer (onBlurOut cfg s) = segmentBuffer s"
    by (simp_all add: updateValidity_eq)
next
  assume "input_value s = [] \<or>
      (\<forall>i<length (segments cfg). \<not> isActionSegment (Some (segments cfg ! i)) \<longrightarrow>
          atPlaceholder cfg (currentValues cfg s) i)"
  then have p: "isPlaceholderState2 cfg s" by (simp add: isPlaceholderState2_iff)
  have q: "isPlaceholderState2 cfg (s\<lparr>actionClass := b, dispatched := d\<rparr>)
             = isPlaceholderState2 cfg s" for b d
    by (simp add: isPlaceholderState2_def currentValues_def)
  have q': "isPlaceholderState2 cfg (s\<lparr>actionClass := b\<rparr>) = isPlaceholderState2 cfg s" for b
    by (simp add: isPlaceholderState2_def currentValues_def)
  show "input_value (onBlurOut2 cfg s) = []" "activeSegment (onBlurOut2 cfg s) = 0"
    "segmentBuffer (onBlurOut2 cfg s) = []" "customValidity (onBlurOut2 cfg s) = []"
    using p by (simp_all add: onBlurOut2_def Let_def emit_def q q' updateValidity2_eq)
next
  assume h: "input_value s \<noteq> [] \<and>
      (\<exists>i<length (segments cfg). \<not> isActionSegment (Some (segments cfg ! i)) \<and>
          \<not> atPlaceholder cfg (currentValues cfg s) i)"
  then have p: "\<not> isPlaceholderState2 cfg s" by (auto simp: isPlaceholderState2_iff)
  have q: "isPlaceholderState2 cfg (s\<lparr>actionClass := b, dispatched := d\<rparr>)
             = isPlaceholderState2 cfg s" for b d
    by (simp add: isPlaceholderState2_def currentValues_def)
  have q': "isPlaceholderState2 cfg (s\<lparr>actionClass := b\<rparr>) = isPlaceholderState2 cfg s" for b
    by (simp add: isPlaceholderState2_def currentValues_def)
  have c: "currentValues cfg (s\<lparr>actionClass := b, dispatched := d\<rparr>) = currentValues cfg s"
    "currentValues cfg (s\<lparr>actionClass := b\<rparr>) = currentValues cfg s" for b d
    by (simp_all add: currentValues_def)
  show "input_value (onBlurOut2 cfg s) = input_value s"
    "activeSegment (onBlurOut2 cfg s) = activeSegment s"
    "segmentBuffer (onBlurOut2 cfg s) = segmentBuffer s"
    "customValidity (onBlurOut2 cfg s) = customValidity (updateValidity2 cfg s)"
    using p by (auto simp: onBlurOut2_def Let_def emit_def q q' c updateValidity2_eq)
qed

text \<open>
  The theorem at an address of placeholders only, at one with a real third segment,
  and at a day before an action segment, once at its placeholder and once filled.
\<close>

theorem onBlurOut_clears_placeholder_state_witness:
  "onBlurOut ipv4 (attach ipv4 (ascii ''--.--.--.--''))
     = (attach ipv4 (ascii ''--.--.--.--''))
         \<lparr>input_value := [], activeSegment := 0, segmentBuffer := [], customValidity := []\<rparr> \<and>
   input_value (onBlurOut ipv4 (attach ipv4 (ascii ''--.--.1.--''))) = ascii ''--.--.1.--'' \<and>
   input_value (onBlurOut2 picker (attach2 picker (ascii ''dd *''))) = [] \<and>
   input_value (onBlurOut2 picker (attach2 picker (ascii ''15 *''))) = ascii ''15 *'' \<and>
   customValidity (onBlurOut2 picker (attach2 picker (ascii ''15 *''))) = []"
proof -
  let ?a = "attach ipv4 (ascii ''--.--.--.--'')"
  let ?b = "attach ipv4 (ascii ''--.--.1.--'')"
  let ?c = "attach2 picker (ascii ''dd *'')"
  let ?d = "attach2 picker (ascii ''15 *'')"
  have "list_all (atPlaceholder ipv4 (parse ipv4 (input_value ?a))) [0..<length (segments ipv4)]"
    by code_simp
  then have ha: "input_value ?a = [] \<or>
      (\<forall>i<length (segments ipv4). atPlaceholder ipv4 (parse ipv4 (input_value ?a)) i)"
    by (simp add: list_all_iff)
  have "input_value ?b \<noteq> [] \<and> 2 < length (segments ipv4) \<and>
      \<not> atPlaceholder ipv4 (parse ipv4 (input_value ?b)) 2" by code_simp
  then have hb: "input_value ?b \<noteq> [] \<and>
      (\<exists>i<length (segments ipv4). \<not> atPlaceholder ipv4 (parse ipv4 (input_value ?b)) i)"
    by blast
  have "list_all (\<lambda>i. \<not> isActionSegment (Some (segments picker ! i)) \<longrightarrow>
          atPlaceholder picker (currentValues picker ?c) i) [0..<length (segments picker)]"
    by code_simp
  then have hc: "input_value ?c = [] \<or>
      (\<forall>i<length (segments picker). \<not> isActionSegment (Some (segments picker ! i)) \<longrightarrow>
          atPlaceholder picker (currentValues picker ?c) i)"
    by (simp add: list_all_iff)
  have "input_value ?d \<noteq> [] \<and> 0 < length (segments picker) \<and>
      \<not> isActionSegment (Some (segments picker ! 0)) \<and>
      \<not> atPlaceholder picker (currentValues picker ?d) 0" by code_simp
  then have hd: "input_value ?d \<noteq> [] \<and>
      (\<exists>i<length (segments picker). \<not> isActionSegment (Some (segments picker ! i)) \<and>
          \<not> atPlaceholder picker (currentValues picker ?d) i)"
    by blast
  have v: "input_value ?b = ascii ''--.--.1.--''" "input_value ?d = ascii ''15 *''"
    "customValidity (updateValidity2 picker ?d) = []" by code_simp+
  note a = onBlurOut_clears_placeholder_state[of ?a ipv4, THEN conjunct1, rule_format, OF ha]
  note b = onBlurOut_clears_placeholder_state[of ?b ipv4, THEN conjunct2, THEN conjunct1,
      rule_format, OF hb, THEN conjunct2, THEN conjunct1]
  note c = onBlurOut_clears_placeholder_state[of ?c picker, THEN conjunct2, THEN conjunct2,
      THEN conjunct1, rule_format, OF hc, THEN conjunct1]
  note d = onBlurOut_clears_placeholder_state[of ?d picker, THEN conjunct2, THEN conjunct2,
      THEN conjunct2, rule_format, OF hd]
  note d1 = d[THEN conjunct1]
  note d2 = d[THEN conjunct2, THEN conjunct2, THEN conjunct2]
  show ?thesis
    using a b[unfolded v(1)] c d1[unfolded v(2)] d2[unfolded v(3)] by (intro conjI)
qed

subsection \<open>Reading a segment\<close>

text \<open>
  Claim C10.  \<open>getSegmentValue\<close> does not clamp its index: for a negative index and
  for an index at or past the number of parsed values it returns \<open>undefined\<close>
  (\<open>None\<close>), never the value of another segment and never an error, and within
  the range it returns the parsed value at that index; \<open>focusSegment\<close> clamps the
  same index into \<open>0 .. n - 1\<close>.
\<close>

theorem getSegmentValue_not_clamped:
  "(index < 0 \<or> index \<ge> int (length (parse cfg (input_value s))) \<longrightarrow>
      getSegmentValue cfg index s = None) \<and>
   (0 \<le> index \<and> index < int (length (parse cfg (input_value s))) \<longrightarrow>
      getSegmentValue cfg index s = parse cfg (input_value s) ! nat index) \<and>
   activeSegment (focusSegment cfg index s) =
     nat (max 0 (min index (int (length (segments cfg)) - 1)))"
  by (auto simp: getSegmentValue_def index_opt_def nth_opt_def)

text \<open>
  The theorem at the address \<open>192.168.1.1\<close>: no value at the indices 4 and -1, the
  last value at 3, and the focus clamped from 4 to 3.
\<close>

theorem getSegmentValue_not_clamped_witness:
  "getSegmentValue ipv4 4 (attach ipv4 (ascii ''192.168.1.1'')) = None \<and>
   getSegmentValue ipv4 (- 1) (attach ipv4 (ascii ''192.168.1.1'')) = None \<and>
   getSegmentValue ipv4 3 (attach ipv4 (ascii ''192.168.1.1'')) = Some (ascii ''1'') \<and>
   activeSegment (focusSegment ipv4 4 (attach ipv4 (ascii ''192.168.1.1''))) = 3"
proof -
  let ?s = "attach ipv4 (ascii ''192.168.1.1'')"
  have len: "int (length (parse ipv4 (input_value ?s))) = 4" by code_simp
  have v: "parse ipv4 (input_value ?s) ! nat 3 = Some (ascii ''1'')" by code_simp
  have n: "nat (max 0 (min 4 (int (length (segments ipv4)) - 1))) = 3" by code_simp
  have h1: "(4::int) < 0 \<or> 4 \<ge> int (length (parse ipv4 (input_value ?s)))" using len by simp
  have h2: "(- 1::int) < 0 \<or> - 1 \<ge> int (length (parse ipv4 (input_value ?s)))" by simp
  have h3: "(0::int) \<le> 3 \<and> 3 < int (length (parse ipv4 (input_value ?s)))" using len by simp
  note a = getSegmentValue_not_clamped[of 4 ipv4 ?s, THEN conjunct1, rule_format, OF h1]
  note b = getSegmentValue_not_clamped[of "- 1" ipv4 ?s, THEN conjunct1, rule_format, OF h2]
  note c = getSegmentValue_not_clamped[of 3 ipv4 ?s, THEN conjunct2, THEN conjunct1,
      rule_format, OF h3]
  note d = getSegmentValue_not_clamped[of 4 ipv4 ?s, THEN conjunct2, THEN conjunct2]
  show ?thesis using a b c d v n by simp
qed

subsection \<open>Backspace\<close>

lemma array_get_array_set_same: "array_get (array_set vs i v) i = v"
  by (simp add: array_get_def array_set_def nth_append)

lemma array_get_array_set_other: "j \<noteq> i \<Longrightarrow> array_get (array_set vs i v) j = array_get vs j"
  by (auto simp: array_get_def array_set_def nth_append)

lemma updateValidity_fields [simp]:
  "input_value (updateValidity cfg s) = input_value s"
  "activeSegment (updateValidity cfg s) = activeSegment s"
  "segmentBuffer (updateValidity cfg s) = segmentBuffer s"
  "selection (updateValidity cfg s) = selection s"
  "actionClass (updateValidity cfg s) = actionClass s"
  "dispatched (updateValidity cfg s) = dispatched s"
  by (simp_all add: updateValidity_eq)

lemma updateValidity_cong:
  "input_value s = input_value t \<Longrightarrow>
     customValidity (updateValidity cfg s) = customValidity (updateValidity cfg t)"
  by (simp add: updateValidity_eq)

lemma currentRanges_cong:
  "input_value s = input_value t \<Longrightarrow> currentRanges cfg s = currentRanges cfg t"
  by (simp add: currentRanges_def)

lemma selection_highlightSegment:
  "selection (highlightSegment s i rs) =
     (case nth_opt rs i of None \<Rightarrow> selection s | Some r \<Rightarrow> Some (r_start r, r_end r))"
  by (simp add: highlightSegment_def split: option.splits)

lemma Backspace_not_printable: "length (ascii ''Backspace'') \<noteq> 1"
  by (simp add: ascii_def)

text \<open>
  Claim C7.  On Backspace the handler prevents the default action and writes the
  text that \<open>format\<close> gives for the parsed values with the active segment's slot
  set to that segment's placeholder (the placeholder string, not the empty string,
  for an active segment that has a descriptor) and every other slot as parsed.  The
  buffer is cleared, the active segment index is unchanged, an \<open>input\<close> event is
  sent, the validity is the one recomputed on the new text and the selection is the
  active segment's range in the new text.  Where \<open>parse\<close> reads the written values
  back from the new text, every other segment's value after the reformat is its
  value before.
\<close>

theorem backspace_resets_active_segment:
  "key ev = ascii ''Backspace'' \<longrightarrow>
     (\<exists>s'. onKeydown cfg ev s = Inr (s', True) \<and>
        input_value s' = format cfg (afterBackspace cfg s) \<and>
        segmentBuffer s' = [] \<and>
        activeSegment s' = activeSegment s \<and>
        customValidity s' =
          customValidity (updateValidity cfg (s\<lparr>input_value := format cfg (afterBackspace cfg s)\<rparr>)) \<and>
        selection s' =
          (case nth_opt (getSegmentRanges (format cfg (afterBackspace cfg s)) (parse cfg) (format cfg))
                  (activeSegment s) of
             None \<Rightarrow> selection s
           | Some r \<Rightarrow> Some (r_start r, r_end r)) \<and>
        dispatched s' = dispatched s @ [InputEvent] \<and>
        actionClass s' = actionClass s) \<and>
     array_get (afterBackspace cfg s) (activeSegment s)
       = nth_opt (placeholderValues cfg) (activeSegment s) \<and>
     (activeSegment s < length (segments cfg) \<longrightarrow>
        array_get (afterBackspace cfg s) (activeSegment s)
          = Some (placeholderValues cfg ! activeSegment s)) \<and>
     (\<forall>j. j \<noteq> activeSegment s \<longrightarrow>
        array_get (afterBackspace cfg s) j = array_get (parse cfg (input_value s)) j) \<and>
     (parse cfg (format cfg (afterBackspace cfg s)) = afterBackspace cfg s \<longrightarrow>
        (\<forall>j. j \<noteq> activeSegment s \<longrightarrow>
           array_get (parse cfg (format cfg (afterBackspace cfg s))) j
             = array_get (parse cfg (input_value s)) j))"
proof (intro impI conjI)
  assume k: "key ev = ascii ''Backspace''"
  let ?vals = "afterBackspace cfg s"
  let ?s2 = "s\<lparr>segmentBuffer := [], input_value := format cfg ?vals\<rparr>"
  let ?s4 = "updateValidity cfg (dispatch InputEvent ?s2)"
  let ?s5 = "highlightSegment ?s4 (activeSegment ?s4) (currentRanges cfg ?s4)"
  have r: "onKeydown cfg ev s = Inr (?s5, True)"
    using Backspace_not_printable
    by (simp add: onKeydown_def k Let_def afterBackspace_def)
  have cv: "customValidity ?s5
      = customValidity (updateValidity cfg (s\<lparr>input_value := format cfg ?vals\<rparr>))"
    by (simp add: updateValidity_cong[of "dispatch InputEvent ?s2" "s\<lparr>input_value := format cfg ?vals\<rparr>"])
  have cr: "currentRanges cfg ?s4 = getSegmentRanges (format cfg ?vals) (parse cfg) (format cfg)"
    by (simp add: currentRanges_def)
  have sel: "selection ?s5 =
          (case nth_opt (getSegmentRanges (format cfg ?vals) (parse cfg) (format cfg))
                  (activeSegment s) of
             None \<Rightarrow> selection s
           | Some r \<Rightarrow> Some (r_start r, r_end r))"
    by (simp add: selection_highlightSegment cr split: option.splits)
  show "\<exists>s'. onKeydown cfg ev s = Inr (s', True) \<and>
        input_value s' = format cfg ?vals \<and>
        segmentBuffer s' = [] \<and>
        activeSegment s' = activeSegment s \<and>
        customValidity s' =
          customValidity (updateValidity cfg (s\<lparr>input_value := format cfg ?vals\<rparr>)) \<and>
        selection s' =
          (case nth_opt (getSegmentRanges (format cfg ?vals) (parse cfg) (format cfg))
                  (activeSegment s) of
             None \<Rightarrow> selection s
           | Some r \<Rightarrow> Some (r_start r, r_end r)) \<and>
        dispatched s' = dispatched s @ [InputEvent] \<and>
        actionClass s' = actionClass s"
    using r cv sel by (intro exI[of _ ?s5]) simp
next
  show "array_get (afterBackspace cfg s) (activeSegment s)
       = nth_opt (placeholderValues cfg) (activeSegment s)"
    by (simp add: afterBackspace_def array_get_array_set_same)
next
  assume "activeSegment s < length (segments cfg)"
  then show "array_get (afterBackspace cfg s) (activeSegment s)
          = Some (placeholderValues cfg ! activeSegment s)"
    by (simp add: afterBackspace_def array_get_array_set_same nth_opt_def)
next
  show "\<forall>j. j \<noteq> activeSegment s \<longrightarrow>
        array_get (afterBackspace cfg s) j = array_get (parse cfg (input_value s)) j"
    by (simp add: afterBackspace_def array_get_array_set_other)
next
  assume "parse cfg (format cfg (afterBackspace cfg s)) = afterBackspace cfg s"
  then show "\<forall>j. j \<noteq> activeSegment s \<longrightarrow>
           array_get (parse cfg (format cfg (afterBackspace cfg s))) j
             = array_get (parse cfg (input_value s)) j"
    by (simp add: afterBackspace_def array_get_array_set_other)
qed

text \<open>
  The theorem at the address \<open>192.168.1.1\<close> with the third segment active and a
  typed \<open>1\<close> in the buffer: the text becomes \<open>192.168.--.1\<close>, the fourth segment
  still reads \<open>1\<close>, and the field is incomplete again.
\<close>

theorem backspace_resets_active_segment_witness:
  "key \<lparr>key = ascii ''Backspace'', ctrlKey = False, metaKey = False, shiftKey = False\<rparr>
     = ascii ''Backspace'' \<and>
   (\<exists>s'. onKeydown ipv4
           \<lparr>key = ascii ''Backspace'', ctrlKey = False, metaKey = False, shiftKey = False\<rparr>
           ((attach ipv4 (ascii ''192.168.1.1''))\<lparr>activeSegment := 2, segmentBuffer := ascii ''1''\<rparr>)
         = Inr (s', True) \<and>
         input_value s' = ascii ''192.168.--.1'' \<and>
         segmentBuffer s' = [] \<and>
         activeSegment s' = 2 \<and>
         customValidity s' = ascii ''Please fill in all fields.'' \<and>
         selection s' = Some (8, 10)) \<and>
   array_get (parse ipv4 (ascii ''192.168.--.1'')) 3 = Some (ascii ''1'')"
proof -
  let ?ev = "\<lparr>key = ascii ''Backspace'', ctrlKey = False, metaKey = False, shiftKey = False\<rparr>"
  let ?s = "(attach ipv4 (ascii ''192.168.1.1''))\<lparr>activeSegment := 2, segmentBuffer := ascii ''1''\<rparr>"
  have k: "key ?ev = ascii ''Backspace''" by simp
  have a: "activeSegment ?s = 2" by simp
  have t: "format ipv4 (afterBackspace ipv4 ?s) = ascii ''192.168.--.1''" by code_simp
  have v: "customValidity (updateValidity ipv4 (?s\<lparr>input_value := ascii ''192.168.--.1''\<rparr>))
             = ascii ''Please fill in all fields.''" by code_simp
  have r: "(case nth_opt (getSegmentRanges (ascii ''192.168.--.1'') (parse ipv4) (format ipv4)) 2 of
             None \<Rightarrow> selection ?s
           | Some r \<Rightarrow> Some (r_start r, r_end r)) = Some (8, 10)" by code_simp
  have rt: "parse ipv4 (format ipv4 (afterBackspace ipv4 ?s)) = afterBackspace ipv4 ?s"
    by code_simp
  have o: "array_get (parse ipv4 (input_value ?s)) 3 = Some (ascii ''1'')" by code_simp
  note th = backspace_resets_active_segment[of ?ev ipv4 ?s, rule_format, OF k]
  note e = th[THEN conjunct1, unfolded t a v r]
  have "(3::nat) \<noteq> activeSegment ?s" by simp
  from th[THEN conjunct2, THEN conjunct2, THEN conjunct2, THEN conjunct2, rule_format, OF rt this]
  have "array_get (parse ipv4 (ascii ''192.168.--.1'')) 3 = Some (ascii ''1'')"
    unfolding t o .
  with k e show ?thesis by blast
qed

subsection \<open>Typed characters that are rejected\<close>

lemma showPlaceholder_fields [simp]:
  "input_value (showPlaceholder cfg s) =
     (if input_value s = [] then formattedPlaceholder cfg else input_value s)"
  "activeSegment (showPlaceholder cfg s) = activeSegment s"
  "segmentBuffer (showPlaceholder cfg s) = segmentBuffer s"
  "customValidity (showPlaceholder cfg s) = customValidity s"
  "selection (showPlaceholder cfg s) = selection s"
  "actionClass (showPlaceholder cfg s) = actionClass s"
  "dispatched (showPlaceholder cfg s) = dispatched s"
  by (simp_all add: showPlaceholder_def)

lemma selection_focusSegment:
  "selection (focusSegment cfg index s) =
     (case nth_opt (currentRanges cfg s) (nat (max 0 (min index (int (length (segments cfg)) - 1)))) of
        None \<Rightarrow> selection s
      | Some r \<Rightarrow> Some (r_start r, r_end r))"
  by (simp add: focusSegment_def Let_def selection_highlightSegment
      currentRanges_cong[of "s\<lparr>activeSegment := a, segmentBuffer := b\<rparr>" s for a b]
      split: option.splits)
lemma advanceSegment_fields:
  "input_value (advanceSegment cfg s) = input_value s"
  "activeSegment (advanceSegment cfg s) = nextSegment cfg s"
  "segmentBuffer (advanceSegment cfg s) = []"
  "customValidity (advanceSegment cfg s) = customValidity s"
  "actionClass (advanceSegment cfg s) = actionClass s"
  "dispatched (advanceSegment cfg s) = dispatched s"
  "selection (advanceSegment cfg s) =
     (case nth_opt (currentRanges cfg s) (nextSegment cfg s) of
        None \<Rightarrow> selection s
      | Some r \<Rightarrow> Some (r_start r, r_end r))"
proof -
  show "input_value (advanceSegment cfg s) = input_value s"
    "segmentBuffer (advanceSegment cfg s) = []"
    "customValidity (advanceSegment cfg s) = customValidity s"
    "actionClass (advanceSegment cfg s) = actionClass s"
    "dispatched (advanceSegment cfg s) = dispatched s"
    by (simp_all add: advanceSegment_def Let_def)
  show "activeSegment (advanceSegment cfg s) = nextSegment cfg s"
    by (auto simp: advanceSegment_def Let_def nextSegment_def)
  have m: "int (activeSegment s) < int (length (segments cfg)) - 1 \<Longrightarrow>
      nat (max 0 (min (int (activeSegment s) + 1) (int (length (segments cfg)) - 1)))
        = activeSegment s + 1"
    by simp
  show "selection (advanceSegment cfg s) =
     (case nth_opt (currentRanges cfg s) (nextSegment cfg s) of
        None \<Rightarrow> selection s
      | Some r \<Rightarrow> Some (r_start r, r_end r))"
  proof (cases "int (activeSegment s) < int (length (segments cfg)) - 1")
    case True
    then have n: "nextSegment cfg s = activeSegment s + 1" by (auto simp: nextSegment_def)
    have "nat (int (activeSegment s) + 1) = Suc (activeSegment s)" by simp
    then show ?thesis using True by (simp add: advanceSegment_def selection_focusSegment m n)
  next
    case False
    then have n: "nextSegment cfg s = activeSegment s" by (auto simp: nextSegment_def)
    show ?thesis using False
      by (simp add: advanceSegment_def Let_def selection_highlightSegment n
          currentRanges_cong[of "s\<lparr>segmentBuffer := []\<rparr>" s] split: option.splits)
  qed
qed

text \<open>
  Claim C5, amended.  On a segment with a \<open>max\<close> that is no decimal segment (the
  text of its step holds no decimal point), a typed key that the segment's pattern
  rejects is absorbed without an error: the only change of the state is that an
  empty text is first filled with the formatted placeholder; the key is written
  neither to the text nor to the buffer.  A key that the pattern accepts but with
  which the buffer's number, as \<open>parseInt\<close> reads it in the segment's radix, exceeds
  \<open>max\<close> is absorbed without an error too: the text is not rewritten (it is the
  placeholder text when it was empty), validity and events are untouched, the buffer
  is cleared, and the active segment becomes the next segment when there is one and
  stays the same on the last segment; the selection moves to that segment's range.
\<close>

theorem typed_character_rejected:
  "nth_opt (segments cfg) (activeSegment s) = Some seg \<and> seg_max seg = Some mx \<and>
   \<not> isDecimalSegment (runtime cfg) seg \<longrightarrow>
     ((\<exists>test. pattern seg = Some test \<and> \<not> test k) \<longrightarrow>
        handleSegmentInput cfg k s = Inr (showPlaceholder cfg s) \<and>
        input_value (showPlaceholder cfg s) =
          (if input_value s = [] then formattedPlaceholder cfg else input_value s) \<and>
        showPlaceholder cfg s = s\<lparr>input_value := input_value (showPlaceholder cfg s)\<rparr>) \<and>
     ((\<forall>test. pattern seg = Some test \<longrightarrow> test k) \<and>
      exceeds (parseInt (runtime cfg) (segmentBuffer s @ k) (radixOf seg)) mx \<longrightarrow>
        (\<exists>s'. handleSegmentInput cfg k s = Inr s' \<and>
           input_value s' = (if input_value s = [] then formattedPlaceholder cfg else input_value s) \<and>
           segmentBuffer s' = [] \<and>
           activeSegment s' = nextSegment cfg s \<and>
           customValidity s' = customValidity s \<and>
           dispatched s' = dispatched s \<and>
           actionClass s' = actionClass s \<and>
           selection s' =
             (case nth_opt (currentRanges cfg (showPlaceholder cfg s)) (nextSegment cfg s) of
                None \<Rightarrow> selection s
              | Some r \<Rightarrow> Some (r_start r, r_end r))))"
proof (intro impI conjI)
  assume h: "nth_opt (segments cfg) (activeSegment s) = Some seg \<and> seg_max seg = Some mx \<and>
   \<not> isDecimalSegment (runtime cfg) seg"
  assume "\<exists>test. pattern seg = Some test \<and> \<not> test k"
  then show "handleSegmentInput cfg k s = Inr (showPlaceholder cfg s)"
    using h by (auto simp: handleSegmentInput_def Let_def)
next
  show "input_value (showPlaceholder cfg s) =
          (if input_value s = [] then formattedPlaceholder cfg else input_value s)"
    by simp
next
  show "showPlaceholder cfg s = s\<lparr>input_value := input_value (showPlaceholder cfg s)\<rparr>"
    by (simp add: showPlaceholder_def)
next
  assume h: "nth_opt (segments cfg) (activeSegment s) = Some seg \<and> seg_max seg = Some mx \<and>
   \<not> isDecimalSegment (runtime cfg) seg"
  assume o: "(\<forall>test. pattern seg = Some test \<longrightarrow> test k) \<and>
      exceeds (parseInt (runtime cfg) (segmentBuffer s @ k) (radixOf seg)) mx"
  let ?s1 = "showPlaceholder cfg s"
  have p: "\<not> (case pattern seg of None \<Rightarrow> False | Some test \<Rightarrow> \<not> test k)"
    using o by (auto split: option.splits)
  have r: "handleSegmentInput cfg k s = Inr (advanceSegment cfg ?s1)"
    using h o p by (simp add: handleSegmentInput_def Let_def)
  have n: "nextSegment cfg ?s1 = nextSegment cfg s" by (simp add: nextSegment_def)
  show "\<exists>s'. handleSegmentInput cfg k s = Inr s' \<and>
           input_value s' = (if input_value s = [] then formattedPlaceholder cfg else input_value s) \<and>
           segmentBuffer s' = [] \<and>
           activeSegment s' = nextSegment cfg s \<and>
           customValidity s' = customValidity s \<and>
           dispatched s' = dispatched s \<and>
           actionClass s' = actionClass s \<and>
           selection s' =
             (case nth_opt (currentRanges cfg (showPlaceholder cfg s)) (nextSegment cfg s) of
                None \<Rightarrow> selection s
              | Some r \<Rightarrow> Some (r_start r, r_end r))"
    using r by (intro exI[of _ "advanceSegment cfg ?s1"])
      (simp add: advanceSegment_fields n split: option.splits)
qed

text \<open>
  The claim as stated says that on overflow the active segment advances to the next
  segment.  On the last segment of an address, with \<open>25\<close> buffered and \<open>6\<close> typed
  (256 exceeds 255), the active segment stays the fourth one: \<open>_advanceSegment\<close> has
  nowhere to go and only clears the buffer.
\<close>

theorem typed_overflow_on_last_segment:
  "nth_opt (segments ipv4) 3 = Some ipv4_segment \<and>
   seg_max ipv4_segment = Some (Finite 255) \<and>
   \<not> isDecimalSegment (runtime ipv4) ipv4_segment \<and>
   digitPattern (ascii ''6'') \<and>
   parseInt (runtime ipv4) (ascii ''25'' @ ascii ''6'') (radixOf ipv4_segment) = Finite 256 \<and>
   exceeds (Finite 256) (Finite 255) \<and>
   handleSegmentInput ipv4 (ascii ''6'')
       ((attach ipv4 (ascii ''192.168.1.25''))\<lparr>activeSegment := 3, segmentBuffer := ascii ''25''\<rparr>)
     = Inr ((attach ipv4 (ascii ''192.168.1.25''))
              \<lparr>activeSegment := 3, segmentBuffer := [], selection := Some (10, 12)\<rparr>) \<and>
   activeSegment ((attach ipv4 (ascii ''192.168.1.25''))
              \<lparr>activeSegment := 3, segmentBuffer := [], selection := Some (10, 12)\<rparr>)
     \<noteq> activeSegment ((attach ipv4 (ascii ''192.168.1.25''))
              \<lparr>activeSegment := 3, segmentBuffer := ascii ''25''\<rparr>) + 1"
proof -
  have a: "nth_opt (segments ipv4) 3 = Some ipv4_segment"
    by (simp add: ipv4_def nth_opt_def)
  have b: "seg_max ipv4_segment = Some (Finite 255)" by (simp add: ipv4_segment_def)
  have c: "\<not> isDecimalSegment (runtime ipv4) ipv4_segment" by code_simp
  have d: "digitPattern (ascii ''6'')" by code_simp
  have e: "parseInt (runtime ipv4) (ascii ''25'' @ ascii ''6'') (radixOf ipv4_segment) = Finite 256"
    by code_simp
  have g: "exceeds (Finite 256) (Finite 255)" by (simp add: exceeds_def)
  have f: "handleSegmentInput ipv4 (ascii ''6'')
       ((attach ipv4 (ascii ''192.168.1.25''))\<lparr>activeSegment := 3, segmentBuffer := ascii ''25''\<rparr>)
     = Inr ((attach ipv4 (ascii ''192.168.1.25''))
              \<lparr>activeSegment := 3, segmentBuffer := [], selection := Some (10, 12)\<rparr>)"
    by code_simp
  show ?thesis using a b c d e f g by simp
qed

text \<open>
  The amended statement at the key \<open>x\<close> on an empty address field, and at the key
  \<open>6\<close> after \<open>25\<close> in the first segment, which moves on to the second.
\<close>

theorem typed_character_rejected_witness:
  "handleSegmentInput ipv4 (ascii ''x'') (attach ipv4 [])
     = Inr ((attach ipv4 [])\<lparr>input_value := ascii ''--.--.--.--''\<rparr>) \<and>
   (\<exists>s'. handleSegmentInput ipv4 (ascii ''6'')
            ((attach ipv4 (ascii ''25.168.1.25''))\<lparr>segmentBuffer := ascii ''25''\<rparr>) = Inr s' \<and>
         input_value s' = ascii ''25.168.1.25'' \<and>
         segmentBuffer s' = [] \<and>
         activeSegment s' = 1 \<and>
         selection s' = Some (3, 6))"
proof -
  let ?e = "attach ipv4 []"
  let ?s = "(attach ipv4 (ascii ''25.168.1.25''))\<lparr>segmentBuffer := ascii ''25''\<rparr>"
  have d: "\<not> isDecimalSegment (runtime ipv4) ipv4_segment" by code_simp
  have he: "nth_opt (segments ipv4) (activeSegment ?e) = Some ipv4_segment \<and>
      seg_max ipv4_segment = Some (Finite 255) \<and> \<not> isDecimalSegment (runtime ipv4) ipv4_segment"
    using d by (simp add: ipv4_def nth_opt_def attach_def ipv4_segment_def)
  have hs: "nth_opt (segments ipv4) (activeSegment ?s) = Some ipv4_segment \<and>
      seg_max ipv4_segment = Some (Finite 255) \<and> \<not> isDecimalSegment (runtime ipv4) ipv4_segment"
    using d by (simp add: ipv4_def nth_opt_def attach_def ipv4_segment_def)
  have nx: "\<not> digitPattern (ascii ''x'')" by code_simp
  have rej: "\<exists>test. pattern ipv4_segment = Some test \<and> \<not> test (ascii ''x'')"
    using nx by (simp add: ipv4_segment_def)
  have d6: "digitPattern (ascii ''6'')" by code_simp
  have "exceeds (parseInt (runtime ipv4) (segmentBuffer ?s @ ascii ''6'') (radixOf ipv4_segment))
          (Finite 255)"
    by code_simp
  then have ov: "(\<forall>test. pattern ipv4_segment = Some test \<longrightarrow> test (ascii ''6'')) \<and>
      exceeds (parseInt (runtime ipv4) (segmentBuffer ?s @ ascii ''6'') (radixOf ipv4_segment))
        (Finite 255)"
    using d6 by (simp add: ipv4_segment_def)
  have v: "(if input_value ?e = [] then formattedPlaceholder ipv4 else input_value ?e)
             = ascii ''--.--.--.--''"
    "(if input_value ?s = [] then formattedPlaceholder ipv4 else input_value ?s)
             = ascii ''25.168.1.25''"
    "nextSegment ipv4 ?s = 1"
    "(case nth_opt (currentRanges ipv4 (showPlaceholder ipv4 ?s)) 1 of
                None \<Rightarrow> selection ?s
              | Some r \<Rightarrow> Some (r_start r, r_end r)) = Some (3, 6)"
    by code_simp+
  note th1 = typed_character_rejected[of ipv4 ?e ipv4_segment "Finite 255" "ascii ''x''", rule_format,
      OF he, THEN conjunct1, rule_format, OF rej]
  note th2 = typed_character_rejected[of ipv4 ?s ipv4_segment "Finite 255" "ascii ''6''", rule_format,
      OF hs, THEN conjunct2, rule_format, OF ov, unfolded v]
  have one: "handleSegmentInput ipv4 (ascii ''x'') ?e
      = Inr (?e\<lparr>input_value := ascii ''--.--.--.--''\<rparr>)"
    using th1 unfolding v by metis
  show ?thesis using one th2 by blast
qed

subsection \<open>The auto-advance decision\<close>




subsection \<open>The engine on small integers reads back what it writes\<close>

text \<open>
  The digits that \<open>toString\<close> writes in a radix are read back by \<open>parseInt\<close> as
  the same number.
\<close>

lemma unat_digitChar:
  "d < 36 \<Longrightarrow> unat (digitChar d) = (if d < 10 then 48 + d else 87 + d)"
proof -
  assume d: "d < 36"
  have "unat (of_nat (48 + d) :: jschar) = 48 + d" "unat (of_nat (87 + d) :: jschar) = 87 + d"
    using d by (simp_all only: unat_of_nat) simp_all
  then show ?thesis by (simp only: digitChar_def split: if_splits) simp
qed

lemma digitValue_digitChar: "d < 36 \<Longrightarrow> digitValue (digitChar d) = Some d"
  by (simp add: digitValue_def unat_digitChar Let_def)

lemma digitsValue_snoc:
  "digitsValue R (Z @ [c]) =
     digitsValue R Z * R + (case digitValue c of None \<Rightarrow> 0 | Some d \<Rightarrow> d)"
  by (simp add: digitsValue_def)

lemma digitsValue_natToString:
  "2 \<le> r \<Longrightarrow> r \<le> 36 \<Longrightarrow> digitsValue r (natToString r n) = n"
proof (induction r n rule: natToString.induct)
  case (1 r n)
  show ?case
  proof (cases "n < r")
    case True
    then have "n < 36" using "1.prems" by simp
    then have "digitsValue r [digitChar n] = n"
      by (simp add: digitsValue_def digitValue_digitChar)
    then show ?thesis using True by (subst natToString.simps) simp
  next
    case False
    have "0 < r" using "1.prems" by simp
    then have "n mod r < r" by (rule mod_less_divisor)
    also have "r \<le> 36" using "1.prems" by simp
    finally have d: "digitValue (digitChar (n mod r)) = Some (n mod r)"
      by (rule digitValue_digitChar)
    have ih: "digitsValue r (natToString r (n div r)) = n div r"
      using "1.IH" "1.prems" False by simp
    have "natToString r n = natToString r (n div r) @ [digitChar (n mod r)]"
      using False "1.prems" by (subst natToString.simps) simp
    then show ?thesis by (simp add: digitsValue_snoc ih d)
  qed
qed

subsection \<open>Cycling through the options of an enumerated segment\<close>

lemma focusSegment2_input_value [simp]:
  "input_value (focusSegment2 cfg index s) = input_value s"
  by (simp add: focusSegment2_def Let_def split: option.splits)

lemma focusSegment2_editable:
  assumes "nth_opt (segments cfg) a = Some seg" and "\<not> isActionSegment (Some seg)"
  shows "activeSegment (focusSegment2 cfg (int a) s) = a"
proof -
  have a: "a < length (segments cfg)" using assms(1) by (simp add: nth_opt_def split: if_splits)
  then have c: "max 0 (min (int a) (int (length (segments cfg)) - 1)) = int a" by simp
  show ?thesis using assms by (simp add: focusSegment2_def Let_def c)
qed

lemma updateValidity2_fields [simp]:
  "input_value (updateValidity2 cfg s) = input_value s"
  "activeSegment (updateValidity2 cfg s) = activeSegment s"
  "segmentBuffer (updateValidity2 cfg s) = segmentBuffer s"
  by (simp_all add: updateValidity2_eq)

lemma showPlaceholder2_activeSegment [simp]:
  "activeSegment (showPlaceholder2 cfg s) = activeSegment s"
  by (simp add: showPlaceholder2_def)

lemma firstIndex_absent: "v \<notin> Some ` set opts \<Longrightarrow> firstIndex opts v k = None"
  by (induction opts arbitrary: k) auto

lemma firstIndex_distinct:
  "distinct opts \<Longrightarrow> i < length opts \<Longrightarrow> firstIndex opts (Some (opts ! i)) k = Some (k + i)"
proof (induction opts arbitrary: k i)
  case Nil
  then show ?case by simp
next
  case (Cons x xs)
  show ?case
  proof (cases i)
    case 0
    then show ?thesis by simp
  next
    case (Suc j)
    then have j: "j < length xs" using Cons.prems by simp
    then have "xs ! j \<in> set xs" by simp
    then have "x \<noteq> xs ! j" using Cons.prems(1) by auto
    then show ?thesis using Cons.IH[of j "Suc k"] Cons.prems j Suc by simp
  qed
qed

lemma adjustSegment2_enum:
  assumes "nth_opt (segments cfg) a = Some seg" and "\<not> isActionSegment (Some seg)"
    and "seg_type seg \<noteq> Some (ascii ''text'')" and "options seg = Some opts"
  shows "input_value (adjustSegment2 cfg a d s) =
           formatGuarded cfg
             (array_set (currentValues cfg (showPlaceholder2 cfg s)) a
                (cycled opts (array_get (currentValues cfg (showPlaceholder2 cfg s)) a) d))"
    and "activeSegment (adjustSegment2 cfg a d s) = a"
  using assms focusSegment2_editable[OF assms(1,2)]
  by (simp_all add: adjustSegment2_def Let_def cycled_def)

lemma int_mod_nat: "nat (int m mod int k) = m mod k"
  by (simp add: zmod_int[symmetric])

lemma cycled_forward:
  "i < length opts \<Longrightarrow> firstIndex opts v 0 = Some i \<Longrightarrow>
     cycled opts v Forward = Some (opts ! ((i + 1) mod length opts))"
proof -
  assume i: "i < length opts" and f: "firstIndex opts v 0 = Some i"
  have e: "int i + 1 + int (length opts) = int (i + 1 + length opts)" by simp
  have "nat ((int i + 1 + int (length opts)) mod int (length opts))
          = (i + 1 + length opts) mod length opts"
    unfolding e by (rule int_mod_nat)
  also have "\<dots> = (i + 1) mod length opts" by (rule mod_add_self2)
  finally have m: "nat ((int i + 1 + int (length opts)) mod int (length opts))
          = (i + 1) mod length opts" .
  have n: "opts \<noteq> []" using i by auto
  show ?thesis unfolding cycled_def f using n m by (simp add: dir_int_def)
qed

lemma cycled_backward:
  "i < length opts \<Longrightarrow> firstIndex opts v 0 = Some i \<Longrightarrow>
     cycled opts v Backward = Some (opts ! ((i + length opts - 1) mod length opts))"
proof -
  assume i: "i < length opts" and f: "firstIndex opts v 0 = Some i"
  have e: "int i + - 1 + int (length opts) = int (i + length opts - 1)" using i by simp
  have m: "nat ((int i + - 1 + int (length opts)) mod int (length opts))
          = (i + length opts - 1) mod length opts"
    unfolding e by (rule int_mod_nat)
  have n: "opts \<noteq> []" using i by auto
  show ?thesis unfolding cycled_def f using n m by (simp add: dir_int_def)
qed

lemma cycled_absent:
  "opts \<noteq> [] \<Longrightarrow> v \<notin> Some ` set opts \<Longrightarrow>
     cycled opts v Forward = Some (opts ! (1 mod length opts)) \<and>
     cycled opts v Backward = Some (opts ! (length opts - 1))"
proof -
  assume n: "opts \<noteq> []" and v: "v \<notin> Some ` set opts"
  have f: "firstIndex opts v 0 = None" by (rule firstIndex_absent[OF v])
  have k: "0 < length opts" using n by simp
  have e1: "int 0 + 1 + int (length opts) = int (1 + length opts)" by simp
  have "nat ((int 0 + 1 + int (length opts)) mod int (length opts))
          = (1 + length opts) mod length opts"
    unfolding e1 by (rule int_mod_nat)
  also have "\<dots> = 1 mod length opts" by (rule mod_add_self2)
  finally have a: "nat ((int 0 + 1 + int (length opts)) mod int (length opts))
          = 1 mod length opts" .
  have e2: "int 0 + - 1 + int (length opts) = int (length opts - 1)" using k by linarith
  have "nat ((int 0 + - 1 + int (length opts)) mod int (length opts))
          = (length opts - 1) mod length opts"
    unfolding e2 by (rule int_mod_nat)
  also have "\<dots> = length opts - 1" using k by simp
  finally have b: "nat ((int 0 + - 1 + int (length opts)) mod int (length opts))
          = length opts - 1" .
  show ?thesis unfolding cycled_def f using n a b by (simp add: dir_int_def)
qed

lemma back_after_forward:
  "i < k \<Longrightarrow> ((i + 1) mod k + k - 1) mod k = (i::nat)"
proof (cases "i + 1 = k")
  case True
  assume "i < k"
  then show ?thesis using True by simp
next
  case False
  assume "i < k"
  then have "i + 1 < k" using False by simp
  then show ?thesis by simp
qed

lemma array_set_twice: "array_set (array_set vs a v) a w = array_set vs a w"
proof (cases "a < length vs")
  case True
  then show ?thesis by (simp add: array_set_def)
next
  case False
  let ?n = "a - length vs"
  have a: "a = length vs + ?n" using False by simp
  have l: "length (vs @ replicate ?n None @ [v]) = Suc a" using False by simp
  have "(vs @ replicate ?n None @ [v])[length vs + ?n := w] = vs @ replicate ?n None @ [w]"
    by (simp add: list_update_append)
  then have "(vs @ replicate ?n None @ [v])[a := w] = vs @ replicate ?n None @ [w]"
    using a by simp
  then show ?thesis using False l by (simp add: array_set_def)
qed

lemma array_set_same: "array_get vs a = Some v \<Longrightarrow> array_set vs a (Some v) = vs"
proof -
  assume g: "array_get vs a = Some v"
  then have a: "a < length vs" and e: "vs ! a = Some v"
    by (simp_all add: array_get_def split: if_splits)
  have "vs[a := vs ! a] = vs" by (rule list_update_id)
  then show ?thesis using a e by (simp add: array_set_def)
qed

text \<open>
  Claim C9, amended.  Let the active segment be an editable segment (no action
  segment, not of type \<open>text\<close>) with a non-empty list of options.  If the options
  are pairwise distinct and the segment's current value is the option at position
  \<open>i\<close>, increment writes the text formatted from the current values with that slot
  replaced by the option at position \<open>(i + 1) mod k\<close>, and decrement the one at
  position \<open>(i + k - 1) mod k\<close>; the active segment stays.  Where the text written
  by increment is read back as the values written, a decrement after it writes the
  original option again, in the original values.  If the current value is not in
  the list, it is treated as position 0: increment writes the option at position
  \<open>1 mod k\<close> and decrement the last option.
\<close>

theorem enum_cycle:
  "nth_opt (segments cfg) (activeSegment s) = Some seg \<and> \<not> isActionSegment (Some seg) \<and>
   seg_type seg \<noteq> Some (ascii ''text'') \<and> options seg = Some opts \<and> opts \<noteq> [] \<longrightarrow>
     (distinct opts \<and> i < length opts \<and>
      array_get (currentValues cfg (showPlaceholder2 cfg s)) (activeSegment s) = Some (opts ! i) \<longrightarrow>
        input_value (increment2 cfg s) =
          formatGuarded cfg (written cfg s (opts ! ((i + 1) mod length opts))) \<and>
        input_value (decrement2 cfg s) =
          formatGuarded cfg (written cfg s (opts ! ((i + length opts - 1) mod length opts))) \<and>
        activeSegment (increment2 cfg s) = activeSegment s \<and>
        activeSegment (decrement2 cfg s) = activeSegment s \<and>
        (currentValues cfg (showPlaceholder2 cfg (increment2 cfg s))
           = written cfg s (opts ! ((i + 1) mod length opts)) \<longrightarrow>
           input_value (decrement2 cfg (increment2 cfg s)) =
             formatGuarded cfg (written cfg s (opts ! i)) \<and>
           written cfg s (opts ! i) = currentValues cfg (showPlaceholder2 cfg s))) \<and>
     (array_get (currentValues cfg (showPlaceholder2 cfg s)) (activeSegment s)
        \<notin> Some ` set opts \<longrightarrow>
        input_value (increment2 cfg s) =
          formatGuarded cfg (written cfg s (opts ! (1 mod length opts))) \<and>
        input_value (decrement2 cfg s) =
          formatGuarded cfg (written cfg s (opts ! (length opts - 1))))"
proof (intro impI)
  assume h: "nth_opt (segments cfg) (activeSegment s) = Some seg \<and> \<not> isActionSegment (Some seg) \<and>
   seg_type seg \<noteq> Some (ascii ''text'') \<and> options seg = Some opts \<and> opts \<noteq> []"
  let ?a = "activeSegment s"
  let ?vs = "currentValues cfg (showPlaceholder2 cfg s)"
  let ?k = "length opts"
  from h have sg: "nth_opt (segments cfg) ?a = Some seg" and na: "\<not> isActionSegment (Some seg)"
    and nt: "seg_type seg \<noteq> Some (ascii ''text'')" and op: "options seg = Some opts"
    and ne: "opts \<noteq> []" by auto
  note enum = adjustSegment2_enum[OF sg na nt op]
  have inc: "input_value (increment2 cfg s) =
      formatGuarded cfg (array_set ?vs ?a (cycled opts (array_get ?vs ?a) Forward))"
    unfolding increment2_def by (rule enum(1))
  have dec: "input_value (decrement2 cfg s) =
      formatGuarded cfg (array_set ?vs ?a (cycled opts (array_get ?vs ?a) Backward))"
    unfolding decrement2_def by (rule enum(1))
  have ainc: "activeSegment (increment2 cfg s) = ?a"
    unfolding increment2_def by (rule enum(2))
  have adec: "activeSegment (decrement2 cfg s) = ?a"
    unfolding decrement2_def by (rule enum(2))
  have part1: "input_value (increment2 cfg s) =
          formatGuarded cfg (written cfg s (opts ! ((i + 1) mod ?k))) \<and>
        input_value (decrement2 cfg s) =
          formatGuarded cfg (written cfg s (opts ! ((i + ?k - 1) mod ?k))) \<and>
        activeSegment (increment2 cfg s) = ?a \<and>
        activeSegment (decrement2 cfg s) = ?a \<and>
        (currentValues cfg (showPlaceholder2 cfg (increment2 cfg s))
           = written cfg s (opts ! ((i + 1) mod ?k)) \<longrightarrow>
           input_value (decrement2 cfg (increment2 cfg s)) =
             formatGuarded cfg (written cfg s (opts ! i)) \<and>
           written cfg s (opts ! i) = ?vs)"
    if d: "distinct opts \<and> i < ?k \<and> array_get ?vs ?a = Some (opts ! i)"
  proof -
    from d have di: "distinct opts" and i: "i < ?k" and sl: "array_get ?vs ?a = Some (opts ! i)"
      by auto
    have fi: "firstIndex opts (array_get ?vs ?a) 0 = Some i"
      unfolding sl using firstIndex_distinct[OF di i, of 0] by simp
    have c1: "input_value (increment2 cfg s) =
          formatGuarded cfg (written cfg s (opts ! ((i + 1) mod ?k)))"
      unfolding inc cycled_forward[OF i fi] written_def ..
    have c2: "input_value (decrement2 cfg s) =
          formatGuarded cfg (written cfg s (opts ! ((i + ?k - 1) mod ?k)))"
      unfolding dec cycled_backward[OF i fi] written_def ..
    have c3: "input_value (decrement2 cfg (increment2 cfg s)) =
             formatGuarded cfg (written cfg s (opts ! i)) \<and>
           written cfg s (opts ! i) = ?vs"
      if rt: "currentValues cfg (showPlaceholder2 cfg (increment2 cfg s))
           = written cfg s (opts ! ((i + 1) mod ?k))"
    proof -
      let ?s1 = "increment2 cfg s"
      let ?j = "(i + 1) mod ?k"
      have "0 < ?k" using ne by simp
      then have j: "?j < ?k" by (rule mod_less_divisor)
      have sg1: "nth_opt (segments cfg) (activeSegment ?s1) = Some seg" unfolding ainc by (rule sg)
      have sl1: "array_get (currentValues cfg (showPlaceholder2 cfg ?s1)) (activeSegment ?s1)
                   = Some (opts ! ?j)"
        unfolding rt ainc written_def by (rule array_get_array_set_same)
      have fj: "firstIndex opts
                  (array_get (currentValues cfg (showPlaceholder2 cfg ?s1)) (activeSegment ?s1)) 0
                  = Some ?j"
        unfolding sl1 using firstIndex_distinct[OF di j, of 0] by simp
      have b: "(?j + ?k - 1) mod ?k = i" by (rule back_after_forward[OF i])
      have cb: "cycled opts
                  (array_get (currentValues cfg (showPlaceholder2 cfg ?s1)) (activeSegment ?s1))
                  Backward = Some (opts ! i)"
        using cycled_backward[OF j fj] b by simp
      have "input_value (decrement2 cfg ?s1) =
          formatGuarded cfg
            (array_set (currentValues cfg (showPlaceholder2 cfg ?s1)) (activeSegment ?s1)
               (cycled opts
                  (array_get (currentValues cfg (showPlaceholder2 cfg ?s1)) (activeSegment ?s1))
                  Backward))"
        unfolding decrement2_def by (rule adjustSegment2_enum(1)[OF sg1 na nt op])
      also have "\<dots> = formatGuarded cfg
            (array_set (written cfg s (opts ! ?j)) ?a (Some (opts ! i)))"
        unfolding cb unfolding rt ainc ..
      also have "\<dots> = formatGuarded cfg (written cfg s (opts ! i))"
        unfolding written_def array_set_twice ..
      finally have r1: "input_value (decrement2 cfg ?s1) =
             formatGuarded cfg (written cfg s (opts ! i))" .
      have r2: "written cfg s (opts ! i) = ?vs"
        unfolding written_def by (rule array_set_same[OF sl])
      show ?thesis using r1 r2 by simp
    qed
    show ?thesis using c1 c2 c3 ainc adec by simp
  qed
  have part2: "input_value (increment2 cfg s) =
          formatGuarded cfg (written cfg s (opts ! (1 mod ?k))) \<and>
        input_value (decrement2 cfg s) =
          formatGuarded cfg (written cfg s (opts ! (?k - 1)))"
    if ab: "array_get ?vs ?a \<notin> Some ` set opts"
    unfolding inc dec written_def using cycled_absent[OF ne ab] by simp
  show "(distinct opts \<and> i < ?k \<and> array_get ?vs ?a = Some (opts ! i) \<longrightarrow>
        input_value (increment2 cfg s) =
          formatGuarded cfg (written cfg s (opts ! ((i + 1) mod ?k))) \<and>
        input_value (decrement2 cfg s) =
          formatGuarded cfg (written cfg s (opts ! ((i + ?k - 1) mod ?k))) \<and>
        activeSegment (increment2 cfg s) = ?a \<and>
        activeSegment (decrement2 cfg s) = ?a \<and>
        (currentValues cfg (showPlaceholder2 cfg (increment2 cfg s))
           = written cfg s (opts ! ((i + 1) mod ?k)) \<longrightarrow>
           input_value (decrement2 cfg (increment2 cfg s)) =
             formatGuarded cfg (written cfg s (opts ! i)) \<and>
           written cfg s (opts ! i) = ?vs)) \<and>
     (array_get ?vs ?a \<notin> Some ` set opts \<longrightarrow>
        input_value (increment2 cfg s) =
          formatGuarded cfg (written cfg s (opts ! (1 mod ?k))) \<and>
        input_value (decrement2 cfg s) =
          formatGuarded cfg (written cfg s (opts ! (?k - 1))))"
    using part1 part2 by blast
qed

text \<open>
  The claim as stated holds for every list of options.  With the options \<open>a\<close>,
  \<open>b\<close>, \<open>a\<close> the lookup of the current value finds the first \<open>a\<close>: from \<open>b\<close>,
  increment writes \<open>a\<close> (position 2) and the decrement after it writes \<open>a\<close> again
  (from position 0 to position 2), not the original \<open>b\<close>; and from the value \<open>a\<close>,
  which is also the option at position 2, increment writes \<open>b\<close>, not the option at
  position \<open>(2 + 1) mod 3\<close>.
\<close>

theorem enum_cycle_repeated_option:
  "options (segments (enumConfig repeated) ! 0) = Some repeated \<and>
   array_get (currentValues (enumConfig repeated)
                (showPlaceholder2 (enumConfig repeated)
                   (attach2 (enumConfig repeated) (ascii ''b'')))) 0 = Some (repeated ! 1) \<and>
   input_value (increment2 (enumConfig repeated) (attach2 (enumConfig repeated) (ascii ''b'')))
     = ascii ''a'' \<and>
   input_value (decrement2 (enumConfig repeated)
                  (increment2 (enumConfig repeated) (attach2 (enumConfig repeated) (ascii ''b''))))
     = ascii ''a'' \<and>
   ascii ''a'' \<noteq> repeated ! 1 \<and>
   array_get (currentValues (enumConfig repeated)
                (showPlaceholder2 (enumConfig repeated)
                   (attach2 (enumConfig repeated) (ascii ''a'')))) 0 = Some (repeated ! 2) \<and>
   input_value (increment2 (enumConfig repeated) (attach2 (enumConfig repeated) (ascii ''a'')))
     = ascii ''b'' \<and>
   ascii ''b'' \<noteq> repeated ! ((2 + 1) mod length repeated)"
  by code_simp

text \<open>
  The amended statement at the operators \<open>+\<close>, \<open>-\<close>, \<open>*\<close>, \<open>/\<close>: decrement wraps
  from \<open>+\<close> to \<open>/\<close>, increment from \<open>/\<close> to \<open>+\<close>, increment and then decrement
  give \<open>+\<close> back, and from the placeholder of an empty field increment goes to \<open>-\<close>.
\<close>

theorem enum_cycle_witness:
  "input_value (decrement2 (enumConfig operators) (attach2 (enumConfig operators) (ascii ''+'')))
     = ascii ''/'' \<and>
   input_value (increment2 (enumConfig operators) (attach2 (enumConfig operators) (ascii ''/'')))
     = ascii ''+'' \<and>
   input_value (decrement2 (enumConfig operators)
                  (increment2 (enumConfig operators) (attach2 (enumConfig operators) (ascii ''+''))))
     = ascii ''+'' \<and>
   input_value (increment2 (enumConfig operators) (attach2 (enumConfig operators) []))
     = ascii ''-''"
proof -
  let ?C = "enumConfig operators"
  let ?seg = "segments ?C ! 0"
  let ?p = "attach2 ?C (ascii ''+'')"
  let ?q = "attach2 ?C (ascii ''/'')"
  let ?e = "attach2 ?C []"
  have act: "activeSegment ?p = 0" "activeSegment ?q = 0" "activeSegment ?e = 0" by code_simp+
  have seg: "nth_opt (segments ?C) 0 = Some ?seg" by (simp add: enumConfig_def nth_opt_def)
  have na: "\<not> isActionSegment (Some ?seg)" by code_simp
  have nt: "seg_type ?seg \<noteq> Some (ascii ''text'')" by code_simp
  have op: "options ?seg = Some operators" by (simp add: enumConfig_def)
  have ne: "operators \<noteq> []" by (simp add: operators_def)
  have h: "nth_opt (segments ?C) (activeSegment ?p) = Some ?seg \<and> \<not> isActionSegment (Some ?seg) \<and>
      seg_type ?seg \<noteq> Some (ascii ''text'') \<and> options ?seg = Some operators \<and> operators \<noteq> []"
    "nth_opt (segments ?C) (activeSegment ?q) = Some ?seg \<and> \<not> isActionSegment (Some ?seg) \<and>
      seg_type ?seg \<noteq> Some (ascii ''text'') \<and> options ?seg = Some operators \<and> operators \<noteq> []"
    "nth_opt (segments ?C) (activeSegment ?e) = Some ?seg \<and> \<not> isActionSegment (Some ?seg) \<and>
      seg_type ?seg \<noteq> Some (ascii ''text'') \<and> options ?seg = Some operators \<and> operators \<noteq> []"
    unfolding act using seg na nt op ne by blast+
  have di: "distinct operators" by code_simp
  have "array_get (currentValues ?C (showPlaceholder2 ?C ?p)) 0 = Some (operators ! 0)"
    by code_simp
  then have hp: "distinct operators \<and> 0 < length operators \<and>
      array_get (currentValues ?C (showPlaceholder2 ?C ?p)) (activeSegment ?p) = Some (operators ! 0)"
    unfolding act using di ne by simp
  have "array_get (currentValues ?C (showPlaceholder2 ?C ?q)) 0 = Some (operators ! 3)"
    by code_simp
  moreover have "3 < length operators" by (simp add: operators_def)
  ultimately have hq: "distinct operators \<and> 3 < length operators \<and>
      array_get (currentValues ?C (showPlaceholder2 ?C ?q)) (activeSegment ?q) = Some (operators ! 3)"
    unfolding act using di by simp
  have "array_get (currentValues ?C (showPlaceholder2 ?C ?e)) 0 \<notin> Some ` set operators"
    by code_simp
  then have he: "array_get (currentValues ?C (showPlaceholder2 ?C ?e)) (activeSegment ?e)
      \<notin> Some ` set operators" unfolding act .
  have rt: "currentValues ?C (showPlaceholder2 ?C (increment2 ?C ?p))
      = written ?C ?p (operators ! ((0 + 1) mod length operators))" by code_simp
  have v: "formatGuarded ?C (written ?C ?p (operators ! ((0 + length operators - 1) mod length operators)))
             = ascii ''/''"
    "formatGuarded ?C (written ?C ?q (operators ! ((3 + 1) mod length operators))) = ascii ''+''"
    "formatGuarded ?C (written ?C ?p (operators ! 0)) = ascii ''+''"
    "formatGuarded ?C (written ?C ?e (operators ! (1 mod length operators))) = ascii ''-''"
    by code_simp+
  note tp = enum_cycle[of ?C ?p ?seg operators 0, rule_format, OF h(1), THEN conjunct1,
      rule_format, OF hp]
  note tq = enum_cycle[of ?C ?q ?seg operators 3, rule_format, OF h(2), THEN conjunct1,
      rule_format, OF hq]
  note te = enum_cycle[of ?C ?e ?seg operators 0, rule_format, OF h(3), THEN conjunct2,
      rule_format, OF he]
  note a = tp[THEN conjunct2, THEN conjunct1, unfolded v]
  note b = tq[THEN conjunct1, unfolded v]
  note c = tp[THEN conjunct2, THEN conjunct2, THEN conjunct2, THEN conjunct2, rule_format, OF rt,
      THEN conjunct1, unfolded v]
  note d = te[THEN conjunct1, unfolded v]
  show ?thesis using a b c d by (intro conjI)
qed

end
